theory Spec2Isabelle
  imports Complex_Main
begin

section \<open>Python values used by the notebook\<close>

text \<open>
  A Python string is a sequence of Unicode code points; the corpus is classical Chinese
  poetry, so a character is modelled by its code point (a natural number), and a string
  by the list of its characters. \<open>sorted\<close> on one-character strings orders them by code
  point, which is the order of the naturals.
\<close>

type_synonym uchar = nat
type_synonym str = "uchar list"

text \<open>
  The exceptions the notebook can raise. The first four are those of opening and
  reading the corpus file. A KeyError carries the key that was not found,
  a character of \<open>char2idx\<close> or a code of \<open>idx2char\<close>. \<open>ShapeError\<close> is the RuntimeError
  of the recurrent layer on a state of the wrong shape (Expected hidden size ...), kept
  apart from the other RuntimeErrors of the library.
\<close>

datatype key = CharKey uchar | IntKey nat

datatype error =
    FileNotFoundError str
  | IsADirectoryError str
  | PermissionError str
  | UnicodeDecodeError
  | KeyError key
  | IndexError
  | ShapeError
  | RuntimeError
  | ValueError
  | NameError

text \<open>
  Subscription \<open>xs[i]\<close> of a list of length \<open>n\<close>: the positions \<open>0 .. n-1\<close> are read as
  they are, the positions \<open>-n .. -1\<close> stand for \<open>n+i\<close>, every other position is an
  IndexError.
\<close>

definition py_index :: "'a list \<Rightarrow> int \<Rightarrow> error + 'a" where
  "py_index xs i =
     (if 0 \<le> i \<and> i < int (length xs) then Inr (xs ! nat i)
      else if i < 0 \<and> - int (length xs) \<le> i then Inr (xs ! nat (int (length xs) + i))
      else Inl IndexError)"

text \<open>
  \<open>xs[lo:hi]\<close>: a missing bound is the end of the list on its side, a negative bound
  counts from the end, and both are clamped to the list; an empty range gives \<open>[]\<close>.
\<close>

definition slice_bound :: "nat \<Rightarrow> int \<Rightarrow> nat" where
  "slice_bound n i = (if i < 0 then nat (max 0 (int n + i)) else min n (nat i))"

definition py_slice :: "'a list \<Rightarrow> int option \<Rightarrow> int option \<Rightarrow> 'a list" where
  "py_slice xs lo hi =
     (let n = length xs;
          a = (case lo of None \<Rightarrow> 0 | Some i \<Rightarrow> slice_bound n i);
          b = (case hi of None \<Rightarrow> n | Some i \<Rightarrow> slice_bound n i)
      in take (b - a) (drop a xs))"

text \<open>\<open>range(a, b)\<close>: the integers from \<open>a\<close> up to \<open>b - 1\<close>.\<close>

definition py_range :: "int \<Rightarrow> int \<Rightarrow> int list" where
  "py_range a b = [a..b - 1]"

text \<open>\<open>s.split(sep)\<close> for a one-character separator: never an empty list.\<close>

fun split_sep :: "'a \<Rightarrow> 'a list \<Rightarrow> 'a list list" where
  "split_sep sep [] = [[]]"
| "split_sep sep (c # cs) =
     (if c = sep then [] # split_sep sep cs
      else (case split_sep sep cs of
              [] \<Rightarrow> [[c]]
            | w # ws \<Rightarrow> (c # w) # ws))"

definition newline :: uchar where
  "newline = 10"

section \<open>PoemDataset\<close>

record PoemDataset =
  sequence_length :: int
  poems :: "str list"
  char2idx :: "uchar \<rightharpoonup> nat"
  idx2char :: "nat \<rightharpoonup> uchar"
  data :: "nat list list"

text \<open>\<open>sorted(list(set(text)))\<close>\<close>

definition sorted_chars :: "str \<Rightarrow> uchar list" where
  "sorted_chars text = sorted_list_of_set (set text)"

text \<open>
  \<open>{ch: i for i, ch in enumerate(chars)}\<close> and \<open>{i: ch for i, ch in enumerate(chars)}\<close>:
  the pairs are stored one after the other, a later pair overwriting an earlier one
  with the same key.
\<close>

definition build_char2idx :: "uchar list \<Rightarrow> (uchar \<rightharpoonup> nat)" where
  "build_char2idx chars = fold (\<lambda>(i, ch) m. m(ch \<mapsto> i)) (enumerate 0 chars) Map.empty"

definition build_idx2char :: "uchar list \<Rightarrow> (nat \<rightharpoonup> uchar)" where
  "build_idx2char chars = fold (\<lambda>(i, ch) m. m(i \<mapsto> ch)) (enumerate 0 chars) Map.empty"

text \<open>\<open>[char2idx[ch] for ch in s]\<close>: the first missing character raises KeyError.\<close>

fun encode :: "(uchar \<rightharpoonup> nat) \<Rightarrow> str \<Rightarrow> error + nat list" where
  "encode c2i [] = Inr []"
| "encode c2i (ch # s) =
     (case c2i ch of
        None \<Rightarrow> Inl (KeyError (CharKey ch))
      | Some i \<Rightarrow> (case encode c2i s of Inl e \<Rightarrow> Inl e | Inr cs \<Rightarrow> Inr (i # cs)))"

text \<open>
  Decoding is the lookup \<open>idx2char[code]\<close> that \<open>predict\<close> applies to each produced code;
  \<open>decode\<close> applies it to a list of codes.
\<close>

fun decode :: "(nat \<rightharpoonup> uchar) \<Rightarrow> nat list \<Rightarrow> error + str" where
  "decode i2c [] = Inr []"
| "decode i2c (i # cs) =
     (case i2c i of
        None \<Rightarrow> Inl (KeyError (IntKey i))
      | Some ch \<Rightarrow> (case decode i2c cs of Inl e \<Rightarrow> Inl e | Inr s \<Rightarrow> Inr (ch # s)))"

text \<open>
  The inner loop of \<open>preprocess\<close>:
  \<open>for i in range(0, len(encoded_poem) - L): data.append(encoded_poem[i:i + L + 1])\<close>
\<close>

definition index_line :: "int \<Rightarrow> nat list \<Rightarrow> nat list list \<Rightarrow> nat list list" where
  "index_line L encoded_poem d =
     fold (\<lambda>i d. d @ [py_slice encoded_poem (Some i) (Some (i + L + 1))])
          (py_range 0 (int (length encoded_poem) - L)) d"

text \<open>The outer loop of \<open>preprocess\<close>, over the poems.\<close>

fun index_poems :: "(uchar \<rightharpoonup> nat) \<Rightarrow> int \<Rightarrow> str list \<Rightarrow> nat list list \<Rightarrow> error + nat list list" where
  "index_poems c2i L [] d = Inr d"
| "index_poems c2i L (poem # ps) d =
     (case encode c2i poem of
        Inl e \<Rightarrow> Inl e
      | Inr encoded_poem \<Rightarrow> index_poems c2i L ps (index_line L encoded_poem d))"

definition preprocess :: "PoemDataset \<Rightarrow> error + PoemDataset" where
  "preprocess self =
     (let text = concat (poems self);
          chars = sorted_chars text;
          self1 = self\<lparr>char2idx := build_char2idx chars, idx2char := build_idx2char chars\<rparr>
      in case index_poems (char2idx self1) (sequence_length self1) (poems self1) (data self1) of
           Inl e \<Rightarrow> Inl e
         | Inr d \<Rightarrow> Inr (self1\<lparr>data := d\<rparr>))"

text \<open>
  \<open>__init__\<close>. Reading the file, \<open>open(file_path, 'r', encoding='utf-8').read()\<close>, is a
  parameter: for a path it gives the text that \<open>read\<close> returns (the bytes of the file
  decoded as UTF-8, with the line ends that text mode translates already translated to
  the newline character), or the exception that \<open>open\<close> or \<open>read\<close> raises (a missing
  file, a directory, a file that may not be read, bytes that are not UTF-8), which
  \<open>__init__\<close> does not catch.
\<close>

definition PoemDataset_init :: "(str \<Rightarrow> error + str) \<Rightarrow> str \<Rightarrow> int \<Rightarrow> error + PoemDataset" where
  "PoemDataset_init read_file file_path L =
     (case read_file file_path of
        Inl e \<Rightarrow> Inl e
      | Inr content \<Rightarrow>
          preprocess \<lparr>sequence_length = L, poems = split_sep newline content,
                      char2idx = Map.empty, idx2char = Map.empty, data = []\<rparr>)"

definition len :: "PoemDataset \<Rightarrow> nat" where
  "len self = length (data self)"

text \<open>\<open>__getitem__\<close>: \<open>(data[index][:-1], data[index][1:])\<close>\<close>

definition getitem :: "PoemDataset \<Rightarrow> int \<Rightarrow> error + (nat list \<times> nat list)" where
  "getitem self index =
     (case py_index (data self) index of
        Inl e \<Rightarrow> Inl e
      | Inr w \<Rightarrow> Inr (py_slice w None (Some (- 1)), py_slice w (Some 1) None))"

section \<open>Tensors and the layers of the library\<close>

text \<open>
  A tensor is its shape and its entries in row-major order. The scores a forward pass
  returns are kept as nested lists, indexed by batch row, position and code.
\<close>

record tensor =
  shape :: "nat list"
  vals :: "real list"

text \<open>\<open>torch.zeros(d0, d1, d2)\<close>\<close>

definition zeros :: "nat list \<Rightarrow> tensor" where
  "zeros dims = \<lparr>shape = dims, vals = replicate (prod_list dims) 0\<rparr>"

record Embedding =
  num_embeddings :: nat
  embedding_dim :: nat

record LSTM =
  input_size :: nat
  hidden_size :: nat
  num_layers :: nat

record Linear =
  in_features :: nat
  out_features :: nat

text \<open>
  The arithmetic of the three layers belongs to the library. It is a parameter of the
  model: a function from the trainable weights \<open>'w\<close>, a batch of code sequences and a
  recurrent state (hidden state, cell state) to the scores and the new recurrent state.
\<close>

type_synonym scores = "real list list list"
type_synonym state = "tensor \<times> tensor"
type_synonym 'w net = "'w \<Rightarrow> nat list list \<Rightarrow> state \<Rightarrow> scores \<times> state"

text \<open>
  What the library promises about shapes, for the layers of a model with \<open>nl\<close> recurrent
  layers, hidden size \<open>hs\<close> and \<open>V\<close> output features: the scores have one row per batch
  row, one vector per position and \<open>V\<close> entries per vector; the new state has the shape
  \<open>[nl, batch, hs]\<close>.
\<close>

definition net_ok :: "'w net \<Rightarrow> nat \<Rightarrow> nat \<Rightarrow> nat \<Rightarrow> bool" where
  "net_ok net nl hs V \<longleftrightarrow>
     (\<forall>w x hidden.
        length (fst (net w x hidden)) = length x
      \<and> (\<forall>b < length x. length (fst (net w x hidden) ! b) = length (x ! b)
            \<and> (\<forall>v \<in> set (fst (net w x hidden) ! b). length v = V))
      \<and> shape (fst (snd (net w x hidden))) = [nl, length x, hs]
      \<and> shape (snd (snd (net w x hidden))) = [nl, length x, hs])"

text \<open>
  \<open>torch.argmax\<close> along a dimension: the index of the first maximal entry; the dimension
  must not be empty.
\<close>

fun argmax_from :: "nat \<Rightarrow> real \<Rightarrow> nat \<Rightarrow> real list \<Rightarrow> nat" where
  "argmax_from i best bi [] = bi"
| "argmax_from i best bi (y # ys) =
     (if best < y then argmax_from (Suc i) y i ys else argmax_from (Suc i) best bi ys)"

definition argmax :: "real list \<Rightarrow> error + nat" where
  "argmax v = (case v of [] \<Rightarrow> Inl IndexError | y # ys \<Rightarrow> Inr (argmax_from 1 y 0 ys))"

text \<open>Running a failing function over a list: the first failure is the result.\<close>

fun mapM :: "('a \<Rightarrow> error + 'b) \<Rightarrow> 'a list \<Rightarrow> error + 'b list" where
  "mapM f [] = Inr []"
| "mapM f (x # xs) =
     (case f x of
        Inl e \<Rightarrow> Inl e
      | Inr y \<Rightarrow> (case mapM f xs of Inl e \<Rightarrow> Inl e | Inr ys \<Rightarrow> Inr (y # ys)))"

text \<open>\<open>torch.argmax(output, dim=2)\<close>: one code per batch row and position.\<close>

definition argmax_dim2 :: "scores \<Rightarrow> error + nat list list" where
  "argmax_dim2 output = mapM (mapM argmax) output"

text \<open>\<open>t[:, -1]\<close> on a tensor of shape [B, T]: the last column; \<open>T = 0\<close> raises.\<close>

definition last_column :: "nat list list \<Rightarrow> error + nat list" where
  "last_column t = mapM (\<lambda>row. py_index row (- 1)) t"

text \<open>\<open>t.item()\<close>: the tensor must hold exactly one element.\<close>

definition item :: "nat list \<Rightarrow> error + nat" where
  "item t = (case t of [p] \<Rightarrow> Inr p | _ \<Rightarrow> Inl ValueError)"

section \<open>LSTMModel\<close>

record 'w LSTMModel =
  hidden_dim :: nat
  embed :: Embedding
  lstm :: LSTM
  fc :: Linear
  weights :: 'w

text \<open>
  \<open>__init__(vocab_size, embed_dim=64, hidden_dim=128, num_layers=1)\<close>; \<open>w0\<close> is the
  random initial value of the weights.
\<close>

definition LSTMModel_init :: "nat \<Rightarrow> nat \<Rightarrow> nat \<Rightarrow> nat \<Rightarrow> 'w \<Rightarrow> 'w LSTMModel" where
  "LSTMModel_init vocab_size embed_dim hidden_dim' num_layers' w0 =
     \<lparr>hidden_dim = hidden_dim',
      embed = \<lparr>num_embeddings = vocab_size, embedding_dim = embed_dim\<rparr>,
      lstm = \<lparr>input_size = embed_dim, hidden_size = hidden_dim', num_layers = num_layers'\<rparr>,
      fc = \<lparr>in_features = hidden_dim', out_features = vocab_size\<rparr>,
      weights = w0\<rparr>"

text \<open>
  \<open>forward\<close>: the embedding raises on a code that is not below \<open>num_embeddings\<close>; the
  recurrent layer (\<open>batch_first=True\<close>) raises unless both tensors of the state have
  the shape \<open>[num_layers, batch, hidden_size]\<close>, the batch being the number of rows of
  \<open>x\<close>, and then raises on sequences of length 0 (RuntimeError: Expected sequence
  length to be larger than 0); then the layers compute.
\<close>

definition forward :: "'w net \<Rightarrow> 'w LSTMModel \<Rightarrow> nat list list \<Rightarrow> state \<Rightarrow> error + (scores \<times> state)" where
  "forward net self x hidden =
     (if \<exists>row \<in> set x. \<exists>code \<in> set row. num_embeddings (embed self) \<le> code
        then Inl IndexError
      else if shape (fst hidden) \<noteq> [num_layers (lstm self), length x, hidden_size (lstm self)]
            \<or> shape (snd hidden) \<noteq> [num_layers (lstm self), length x, hidden_size (lstm self)]
        then Inl ShapeError
      else if \<exists>row \<in> set x. row = [] then Inl RuntimeError
      else Inr (net (weights self) x hidden))"

text \<open>
  \<open>init_hidden\<close>:
  \<open>(torch.zeros(1, batch_size, self.hidden_dim), torch.zeros(1, batch_size, self.hidden_dim))\<close>
\<close>

definition init_hidden :: "'w LSTMModel \<Rightarrow> nat \<Rightarrow> state" where
  "init_hidden self batch_size =
     (zeros [1, batch_size, hidden_dim self], zeros [1, batch_size, hidden_dim self])"

section \<open>predict\<close>

text \<open>What the notebook prints: the text of \<open>predict\<close>, or the loss line of an epoch.\<close>

datatype printed = Text_line str | Loss_line int real

text \<open>The body of the loop of \<open>predict\<close>, run \<open>n\<close> times.\<close>

fun predict_loop :: "'w net \<Rightarrow> 'w LSTMModel \<Rightarrow> PoemDataset \<Rightarrow> nat \<Rightarrow> nat list list \<Rightarrow> state \<Rightarrow> str
    \<Rightarrow> error + str" where
  "predict_loop net model dataset 0 start_input hidden predicted_text = Inr predicted_text"
| "predict_loop net model dataset (Suc n) start_input hidden predicted_text =
     (case forward net model start_input hidden of
        Inl e \<Rightarrow> Inl e
      | Inr (output, hidden') \<Rightarrow>
          (case argmax_dim2 output of
             Inl e \<Rightarrow> Inl e
           | Inr am \<Rightarrow>
               (case last_column am of
                  Inl e \<Rightarrow> Inl e
                | Inr predicted_index \<Rightarrow>
                    (case item predicted_index of
                       Inl e \<Rightarrow> Inl e
                     | Inr p \<Rightarrow>
                         (case idx2char dataset p of
                            None \<Rightarrow> Inl (KeyError (IntKey p))
                          | Some ch \<Rightarrow>
                              predict_loop net model dataset n [predicted_index] hidden'
                                (predicted_text @ [ch]))))))"

text \<open>The value of \<open>predicted_text\<close> when the loop of \<open>predict\<close> has ended.\<close>

definition predicted_text :: "'w net \<Rightarrow> 'w LSTMModel \<Rightarrow> PoemDataset \<Rightarrow> str \<Rightarrow> int \<Rightarrow> error + str" where
  "predicted_text net model dataset start_text prediction_len =
     (let hidden = init_hidden model 1
      in case encode (char2idx dataset) start_text of
           Inl e \<Rightarrow> Inl e
         | Inr codes \<Rightarrow>
             predict_loop net model dataset (length (py_range 0 prediction_len))
               [codes] hidden start_text)"

text \<open>\<open>predict\<close> returns nothing: it prints the text, here onto the lines printed so far.\<close>

definition predict :: "'w net \<Rightarrow> 'w LSTMModel \<Rightarrow> PoemDataset \<Rightarrow> str \<Rightarrow> int \<Rightarrow> printed list
    \<Rightarrow> error + printed list" where
  "predict net model dataset start_text prediction_len out =
     (case predicted_text net model dataset start_text prediction_len of
        Inl e \<Rightarrow> Inl e
      | Inr text \<Rightarrow> Inr (out @ [Text_line text]))"

section \<open>The training loop\<close>

text \<open>
  The functions of the library that the loop calls: the layers, the value of the
  cross-entropy loss, and one Adam step (the gradients of the loss at this batch and
  state, then the update of the weights and of the optimizer's own state \<open>'o\<close>).
\<close>

record ('w, 'o) torch =
  layers :: "'w net"
  cross_entropy :: "scores \<Rightarrow> nat list list \<Rightarrow> real"
  adam_step :: "'w \<Rightarrow> 'o \<Rightarrow> nat list list \<Rightarrow> nat list list \<Rightarrow> state \<Rightarrow> 'w \<times> 'o"

text \<open>
  \<open>loss_function(output.transpose(1, 2), targets)\<close>: the scores and the targets must
  agree in batch and length, and every target must be a class of the scores.
\<close>

definition loss_function :: "('w, 'o) torch \<Rightarrow> scores \<Rightarrow> nat list list \<Rightarrow> error + real" where
  "loss_function lib output targets =
     (if map length output \<noteq> map length targets then Inl ValueError
      else if \<exists>(row, trow) \<in> set (zip output targets). \<exists>(v, t) \<in> set (zip row trow). length v \<le> t
        then Inl IndexError
      else Inr (cross_entropy lib output targets))"

text \<open>
  The variables of the notebook that the loop changes; \<open>steps\<close> counts the calls of
  \<open>optimizer.step()\<close>; \<open>loss\<close> has no value before the first batch.
\<close>

record ('w, 'o) run =
  model :: "'w LSTMModel"
  optimizer :: 'o
  loss :: "real option"
  steps :: nat
  stdout :: "printed list"

text \<open>
  The loader with \<open>batch_size=32, shuffle=True\<close>: the sampler draws an order of the
  indices, the loader cuts it into batches of 32 and keeps a shorter last batch; a
  batch is fetched with \<open>__getitem__\<close> and stacked, which needs windows of one length.
\<close>

function chunks :: "nat \<Rightarrow> 'a list \<Rightarrow> 'a list list" where
  "chunks k xs = (if k = 0 \<or> xs = [] then [] else take k xs # chunks k (drop k xs))"
  by pat_completeness auto
termination
  by (relation "measure (\<lambda>(k, xs). length xs)") auto

declare chunks.simps [simp del]

definition data_loader :: "nat list \<Rightarrow> nat list list" where
  "data_loader order = chunks 32 order"

definition collate :: "(nat list \<times> nat list) list \<Rightarrow> error + (nat list list \<times> nat list list)" where
  "collate samples =
     (if (\<forall>s \<in> set samples. length (fst s) = length (fst (hd samples)))
       \<and> (\<forall>s \<in> set samples. length (snd s) = length (snd (hd samples)))
      then Inr (map fst samples, map snd samples) else Inl RuntimeError)"

definition fetch :: "PoemDataset \<Rightarrow> nat list \<Rightarrow> error + (nat list list \<times> nat list list)" where
  "fetch dataset idxs =
     (case mapM (\<lambda>i. getitem dataset (int i)) idxs of
        Inl e \<Rightarrow> Inl e
      | Inr samples \<Rightarrow> collate samples)"

text \<open>The body of the inner loop, for the batch with the indices \<open>idxs\<close>.\<close>

definition train_batch :: "('w, 'o) torch \<Rightarrow> PoemDataset \<Rightarrow> nat list \<Rightarrow> ('w, 'o) run \<times> state
    \<Rightarrow> error + (('w, 'o) run \<times> state)" where
  "train_batch lib dataset idxs rh =
     (case fetch dataset idxs of
        Inl e \<Rightarrow> Inl e
      | Inr (seq, targets) \<Rightarrow>
          (let r = fst rh;
               hidden = (fst (snd rh), snd (snd rh))
           in case forward (layers lib) (model r) seq hidden of
                Inl e \<Rightarrow> Inl e
              | Inr (output, hidden') \<Rightarrow>
                  (case loss_function lib output targets of
                     Inl e \<Rightarrow> Inl e
                   | Inr l \<Rightarrow>
                       (let wo = adam_step lib (weights (model r)) (optimizer r) seq targets hidden
                        in Inr (r\<lparr>model := (model r)\<lparr>weights := fst wo\<rparr>, optimizer := snd wo,
                                   loss := Some l, steps := steps r + 1\<rparr>, hidden')))))"

fun train_batches :: "('w, 'o) torch \<Rightarrow> PoemDataset \<Rightarrow> nat list list \<Rightarrow> ('w, 'o) run \<times> state
    \<Rightarrow> error + (('w, 'o) run \<times> state)" where
  "train_batches lib dataset [] rh = Inr rh"
| "train_batches lib dataset (idxs # bs) rh =
     (case train_batch lib dataset idxs rh of
        Inl e \<Rightarrow> Inl e
      | Inr rh' \<Rightarrow> train_batches lib dataset bs rh')"

text \<open>The seed of the sample printed after each epoch, six characters.\<close>

definition epoch_seed :: str where
  "epoch_seed = [26149, 27743, 33457, 26376, 22812, 65292]"

text \<open>One epoch: the body of the outer loop; \<open>order\<close> is what the sampler drew.\<close>

definition train_epoch :: "('w, 'o) torch \<Rightarrow> PoemDataset \<Rightarrow> nat list \<Rightarrow> int \<Rightarrow> ('w, 'o) run
    \<Rightarrow> error + ('w, 'o) run" where
  "train_epoch lib dataset order epoch r =
     (let hidden = init_hidden (model r) 32
      in case train_batches lib dataset (data_loader order) (r, hidden) of
           Inl e \<Rightarrow> Inl e
         | Inr (r', hidden') \<Rightarrow>
             (case loss r' of
                None \<Rightarrow> Inl NameError
              | Some l \<Rightarrow>
                  (case predict (layers lib) (model r') dataset epoch_seed 6
                          (stdout r' @ [Loss_line (epoch + 1) l]) of
                     Inl e \<Rightarrow> Inl e
                   | Inr out \<Rightarrow> Inr (r'\<lparr>stdout := out\<rparr>))))"

fun train_epochs :: "('w, 'o) torch \<Rightarrow> PoemDataset \<Rightarrow> (int \<Rightarrow> nat list) \<Rightarrow> int list \<Rightarrow> ('w, 'o) run
    \<Rightarrow> error + ('w, 'o) run" where
  "train_epochs lib dataset sampler [] r = Inr r"
| "train_epochs lib dataset sampler (epoch # es) r =
     (case train_epoch lib dataset (sampler epoch) epoch r of
        Inl e \<Rightarrow> Inl e
      | Inr r' \<Rightarrow> train_epochs lib dataset sampler es r')"

text \<open>
  \<open>for epoch in range(epochs): ...\<close>; the notebook has \<open>epochs = 10\<close>. \<open>sampler epoch\<close>
  is the order the sampler draws in that epoch.
\<close>

definition train :: "('w, 'o) torch \<Rightarrow> PoemDataset \<Rightarrow> (int \<Rightarrow> nat list) \<Rightarrow> int \<Rightarrow> ('w, 'o) run
    \<Rightarrow> error + ('w, 'o) run" where
  "train lib dataset sampler epochs r = train_epochs lib dataset sampler (py_range 0 epochs) r"

section \<open>A small corpus\<close>

text \<open>
  The corpus of the two lines \<open>abac\<close> and \<open>bc\<close> with sequence length 2, before and after
  \<open>preprocess\<close> (\<open>a\<close>, \<open>b\<close>, \<open>c\<close> are the code points 97, 98, 99).
\<close>

definition scenario :: PoemDataset where
  "scenario = \<lparr>sequence_length = 2, poems = [[97, 98, 97, 99], [98, 99]],
                char2idx = Map.empty, idx2char = Map.empty, data = []\<rparr>"

definition scenario_ds :: PoemDataset where
  "scenario_ds = \<lparr>sequence_length = 2, poems = [[97, 98, 97, 99], [98, 99]],
                char2idx = [97 \<mapsto> 0, 98 \<mapsto> 1, 99 \<mapsto> 2],
                idx2char = [0 \<mapsto> 97, 1 \<mapsto> 98, 2 \<mapsto> 99],
                data = [[0, 1, 0], [1, 0, 2]]\<rparr>"

text \<open>
  A corpus with the same characters in other frequencies and another order of first
  occurrence: the one line \<open>cbaaa\<close>, with sequence length 4.
\<close>

definition scenario_freq :: PoemDataset where
  "scenario_freq = \<lparr>sequence_length = 4, poems = [[99, 98, 97, 97, 97]],
                char2idx = Map.empty, idx2char = Map.empty, data = []\<rparr>"

definition scenario_freq_ds :: PoemDataset where
  "scenario_freq_ds = \<lparr>sequence_length = 4, poems = [[99, 98, 97, 97, 97]],
                char2idx = [97 \<mapsto> 0, 98 \<mapsto> 1, 99 \<mapsto> 2],
                idx2char = [0 \<mapsto> 97, 1 \<mapsto> 98, 2 \<mapsto> 99],
                data = [[2, 1, 0, 0, 0]]\<rparr>"

text \<open>The path of the corpus, \<open>poems.txt\<close>.\<close>

definition poems_txt :: str where
  "poems_txt = [112, 111, 101, 109, 115, 46, 116, 120, 116]"

text \<open>A directory that holds \<open>poems.txt\<close> as an empty file, and no other file.\<close>

definition empty_poems_txt :: "str \<Rightarrow> error + str" where
  "empty_poems_txt path = (if path = poems_txt then Inr [] else Inl (FileNotFoundError path))"

section \<open>The sampler of the specification\<close>

text \<open>
  Following the words of the specification: the code with the maximum score (the first
  one, where several scores are maximal).
\<close>

definition select_max :: "real list \<Rightarrow> nat" where
  "select_max v = length (takeWhile (\<lambda>x. x \<noteq> Max (set v)) v)"

text \<open>
  Following the words of the specification, the characters the sampler generates: \<open>n\<close>
  times, run the layers on the current input with the carried state, take the scores
  at the last position, select the code with the maximum score, decode it, and go on
  with this code alone as the input and the new state.
\<close>

fun greedy_continuation :: "'w net \<Rightarrow> 'w \<Rightarrow> (nat \<Rightarrow> uchar) \<Rightarrow> nat \<Rightarrow> nat list \<Rightarrow> state \<Rightarrow> str" where
  "greedy_continuation net w dec 0 inp st = []"
| "greedy_continuation net w dec (Suc n) inp st =
     (let code = select_max (last (hd (fst (net w [inp] st))))
      in dec code # greedy_continuation net w dec n [code] (snd (net w [inp] st)))"

text \<open>
  Layers for a vocabulary of three codes that score the code 1 highest at every
  position, and return a zero state of hidden size 128 for one recurrent layer.
\<close>

definition constant_net :: "unit net" where
  "constant_net w x hidden =
     (map (map (\<lambda>code. [0, 1, 0])) x, (zeros [1, length x, 128], zeros [1, length x, 128]))"

text \<open>
  A library around \<open>constant_net\<close> whose loss is always 0 and whose optimizer step leaves
  the weights as they are, and the variables of a run before the first epoch.
\<close>

definition constant_torch :: "(unit, unit) torch" where
  "constant_torch = \<lparr>layers = constant_net, cross_entropy = (\<lambda>output targets. 0),
                      adam_step = (\<lambda>w opt seq targets hidden. (w, opt))\<rparr>"

definition fresh_run :: "(unit, unit) run" where
  "fresh_run = \<lparr>model = LSTMModel_init 3 64 128 1 (), optimizer = (), loss = None, steps = 0,
                 stdout = []\<rparr>"

section \<open>Facts about the vocabulary\<close>

lemma sorted_chars_code: "sorted_chars text = sort (remdups text)"
  by (simp add: sorted_chars_def sorted_list_of_set_sort_remdups)

lemma sorted_chars_set: "set (sorted_chars text) = set text"
  by (simp add: sorted_chars_def)

lemma sorted_chars_distinct: "distinct (sorted_chars text)"
  by (simp add: sorted_chars_def)

lemma sorted_chars_sorted: "sorted (sorted_chars text)"
  by (simp add: sorted_chars_def)

lemma sorted_chars_length: "length (sorted_chars text) = card (set text)"
  by (simp add: sorted_chars_def)

lemma build_char2idx_snoc:
  "build_char2idx (xs @ [x]) = (build_char2idx xs)(x \<mapsto> length xs)"
  by (simp add: build_char2idx_def enumerate_append_eq)

lemma build_idx2char_snoc:
  "build_idx2char (xs @ [x]) = (build_idx2char xs)(length xs \<mapsto> x)"
  by (simp add: build_idx2char_def enumerate_append_eq)

lemma build_char2idx_Nil: "build_char2idx [] = Map.empty"
  by (simp add: build_char2idx_def)

lemma build_idx2char_Nil: "build_idx2char [] = Map.empty"
  by (simp add: build_idx2char_def)

lemma build_idx2char_eq:
  "build_idx2char chars i = (if i < length chars then Some (chars ! i) else None)"
  by (induction chars rule: rev_induct)
     (auto simp: build_idx2char_Nil build_idx2char_snoc nth_append)

lemma build_char2idx_dom: "dom (build_char2idx chars) = set chars"
proof (induction chars rule: rev_induct)
  case Nil
  show ?case by (simp add: build_char2idx_Nil)
next
  case (snoc x xs)
  have "dom (build_char2idx (xs @ [x])) = insert x (dom (build_char2idx xs))"
    by (simp only: build_char2idx_snoc dom_fun_upd) simp
  then show ?case using snoc by simp
qed

lemma build_char2idx_iff:
  "distinct chars \<Longrightarrow>
   build_char2idx chars c = Some i \<longleftrightarrow> i < length chars \<and> chars ! i = c"
proof (induction chars rule: rev_induct)
  case Nil
  then show ?case by (simp add: build_char2idx_Nil)
next
  case (snoc x xs)
  then have d: "distinct xs" and nx: "x \<notin> set xs" by simp_all
  show ?case
  proof (cases "c = x")
    case True
    have "\<And>j. j < length xs \<Longrightarrow> xs ! j \<noteq> x" using nx nth_mem by metis
    then show ?thesis using True
      by (auto simp: build_char2idx_snoc nth_append)
  next
    case False
    then show ?thesis using snoc.IH [OF d]
      by (auto simp: build_char2idx_snoc nth_append less_Suc_eq)
  qed
qed

lemma preprocess_fields:
  assumes "preprocess self = Inr ds"
  shows "char2idx ds = build_char2idx (sorted_chars (concat (poems self)))"
    and "idx2char ds = build_idx2char (sorted_chars (concat (poems self)))"
    and "poems ds = poems self"
    and "sequence_length ds = sequence_length self"
    and "index_poems (build_char2idx (sorted_chars (concat (poems self))))
           (sequence_length self) (poems self) (data self) = Inr (data ds)"
  using assms by (auto simp: preprocess_def Let_def split: sum.splits)

lemma vocab_inverse:
  assumes "preprocess self = Inr ds"
  shows "char2idx ds c = Some i \<longleftrightarrow> idx2char ds i = Some c"
  using build_char2idx_iff [OF sorted_chars_distinct, of "concat (poems self)" c i]
  by (simp add: preprocess_fields(1,2) [OF assms] build_idx2char_eq)

lemma encode_decode:
  assumes inv: "\<And>c i. c2i c = Some i \<Longrightarrow> i2c i = Some c"
  shows "set s \<subseteq> dom c2i \<Longrightarrow> \<exists>cs. encode c2i s = Inr cs \<and> decode i2c cs = Inr s \<and> length cs = length s"
proof (induction s)
  case Nil
  then show ?case by simp
next
  case (Cons ch s)
  then obtain i where i: "c2i ch = Some i" by auto
  from Cons obtain cs where cs: "encode c2i s = Inr cs" "decode i2c cs = Inr s" "length cs = length s"
    by auto
  show ?case using i cs inv [OF i] by simp
qed

lemma decode_encode:
  assumes inv: "\<And>c i. i2c i = Some c \<Longrightarrow> c2i c = Some i"
  shows "set cs \<subseteq> dom i2c \<Longrightarrow> \<exists>s. decode i2c cs = Inr s \<and> encode c2i s = Inr cs"
proof (induction cs)
  case Nil
  then show ?case by simp
next
  case (Cons i cs)
  then obtain ch where i: "i2c i = Some ch" by auto
  from Cons obtain s where cs: "decode i2c cs = Inr s" "encode c2i s = Inr cs"
    by auto
  show ?case using i cs inv [OF i] by simp
qed

section \<open>Facts about the windows\<close>

lemma fold_snoc_map: "fold (\<lambda>i d. d @ [f i]) xs d = d @ map f xs"
  by (induction xs arbitrary: d) simp_all

lemma index_line_eq:
  "index_line L enc d =
     d @ map (\<lambda>i. py_slice enc (Some i) (Some (i + L + 1))) [0..int (length enc) - L - 1]"
  by (simp add: index_line_def py_range_def fold_snoc_map)

lemma length_index_line:
  "length (index_line L enc d) = length d + nat (max 0 (int (length enc) - L))"
  by (simp add: index_line_eq)

lemma slice_window:
  assumes "0 \<le> i" "0 \<le> k" "i + k \<le> int (length xs)"
  shows "py_slice xs (Some i) (Some (i + k)) = take (nat k) (drop (nat i) xs)"
proof -
  have a: "slice_bound (length xs) i = nat i" using assms by (simp add: slice_bound_def)
  have b: "slice_bound (length xs) (i + k) = nat i + nat k"
    using assms by (simp add: slice_bound_def nat_add_distrib)
  show ?thesis by (simp add: py_slice_def a b)
qed

lemma slice_butlast: "xs \<noteq> [] \<Longrightarrow> py_slice xs None (Some (- 1)) = butlast xs"
  by (cases xs rule: rev_cases) (simp_all add: py_slice_def slice_bound_def)

lemma slice_butlast_nil: "py_slice [] None (Some (- 1)) = []"
  by (simp add: py_slice_def)

lemma slice_tl: "py_slice xs (Some 1) None = drop 1 xs"
  by (cases xs) (simp_all add: py_slice_def slice_bound_def)

lemma encode_total:
  "set s \<subseteq> dom c2i \<Longrightarrow> encode c2i s = Inr (map (\<lambda>ch. the (c2i ch)) s)"
  by (induction s) auto

lemma index_poems_eq:
  "set (concat ps) \<subseteq> dom c2i \<Longrightarrow>
   index_poems c2i L ps d =
     Inr (d @ concat (map (\<lambda>p. index_line L (map (\<lambda>ch. the (c2i ch)) p) []) ps))"
proof (induction ps arbitrary: d)
  case Nil
  then show ?case by simp
next
  case (Cons p ps)
  have e: "encode c2i p = Inr (map (\<lambda>ch. the (c2i ch)) p)"
    using Cons.prems by (intro encode_total) simp
  have "index_line L (map (\<lambda>ch. the (c2i ch)) p) d = d @ index_line L (map (\<lambda>ch. the (c2i ch)) p) []"
    by (simp add: index_line_eq)
  then show ?case using Cons e by simp
qed

lemma concat_split_at:
  "k < length xss \<Longrightarrow> concat xss = concat (take k xss) @ xss ! k @ concat (drop (Suc k) xss)"
  by (subst id_take_nth_drop [of k xss]) simp_all

lemma nth_concat_offset:
  assumes "k < length xss" "i < length (xss ! k)"
  shows "length (concat (take k xss)) + i < length (concat xss)"
    and "concat xss ! (length (concat (take k xss)) + i) = xss ! k ! i"
proof -
  have c: "concat xss = concat (take k xss) @ xss ! k @ concat (drop (Suc k) xss)"
    by (rule concat_split_at [OF assms(1)])
  have "length (concat xss) = length (concat (take k xss)) + length (xss ! k)
          + length (concat (drop (Suc k) xss))"
    by (subst c) simp
  then show "length (concat (take k xss)) + i < length (concat xss)"
    using assms(2) by simp
  show "concat xss ! (length (concat (take k xss)) + i) = xss ! k ! i"
    by (subst c) (simp add: nth_append assms(2))
qed

lemma window_pair:
  assumes "i + l < length codes"
  shows "py_slice (take (Suc l) (drop i codes)) None (Some (- 1)) = take l (drop i codes)"
    and "py_slice (take (Suc l) (drop i codes)) (Some 1) None = take l (drop (Suc i) codes)"
    and "take l (drop (Suc i) codes) = drop 1 (take l (drop i codes) @ [codes ! (i + l)])"
proof -
  let ?w = "take (Suc l) (drop i codes)"
  have len: "length ?w = Suc l" using assms by simp
  then have ne: "?w \<noteq> []" by auto
  have w: "?w = take l (drop i codes) @ [codes ! (i + l)]"
    using assms by (simp add: take_Suc_conv_app_nth)
  have "py_slice ?w None (Some (- 1)) = butlast ?w"
    by (rule slice_butlast [OF ne])
  also have "butlast ?w = take l (drop i codes)"
    by (simp only: w butlast_snoc)
  finally show "py_slice ?w None (Some (- 1)) = take l (drop i codes)" .
  have d: "drop 1 ?w = take l (drop (Suc i) codes)"
    by (simp add: drop_take)
  show "py_slice ?w (Some 1) None = take l (drop (Suc i) codes)"
    by (simp only: slice_tl d)
  show "take l (drop (Suc i) codes) = drop 1 (take l (drop i codes) @ [codes ! (i + l)])"
    using d w by simp
qed

lemma index_line_nth:
  assumes "0 \<le> i" "i < int (length enc) - L"
  shows "index_line L enc [] ! nat i = py_slice enc (Some i) (Some (i + L + 1))"
    and "nat i < length (index_line L enc [])"
proof -
  have n: "nat i < length [0..int (length enc) - L - 1]" using assms by simp
  have "[0..int (length enc) - L - 1] ! nat i = i" using assms by simp
  then show "index_line L enc [] ! nat i = py_slice enc (Some i) (Some (i + L + 1))"
    using n by (simp add: index_line_eq del: length_upto)
  show "nat i < length (index_line L enc [])" using n by (simp add: index_line_eq)
qed

lemma sample_of_line:
  assumes L0: "0 \<le> L" and i0: "0 \<le> i" and iN: "i < int (length codes) - L"
  shows "py_slice (index_line L codes [] ! nat i) None (Some (- 1))
           = py_slice codes (Some i) (Some (i + L))"
    and "py_slice (index_line L codes [] ! nat i) (Some 1) None
           = py_slice codes (Some (i + 1)) (Some (i + L + 1))"
    and "py_slice codes (Some (i + 1)) (Some (i + L + 1))
           = drop 1 (py_slice codes (Some i) (Some (i + L)) @ [codes ! nat (i + L)])"
proof -
  have b: "nat i + nat L < length codes" using assms by linarith
  have e1: "index_line L codes [] ! nat i = py_slice codes (Some i) (Some (i + (L + 1)))"
    using index_line_nth(1) [OF i0 iN] by (simp add: add.assoc)
  have e2: "py_slice codes (Some i) (Some (i + (L + 1))) = take (nat (L + 1)) (drop (nat i) codes)"
    by (rule slice_window) (use assms in auto)
  have e3: "nat (L + 1) = Suc (nat L)" using L0 by (simp add: Suc_nat_eq_nat_zadd1)
  have w: "index_line L codes [] ! nat i = take (Suc (nat L)) (drop (nat i) codes)"
    by (simp only: e1 e2 e3)
  have s1: "py_slice codes (Some i) (Some (i + L)) = take (nat L) (drop (nat i) codes)"
    using slice_window [of i L codes] assms by simp
  have e4: "py_slice codes (Some (i + 1)) (Some (i + 1 + L)) = take (nat L) (drop (nat (i + 1)) codes)"
    by (rule slice_window) (use assms in auto)
  have e5: "nat (i + 1) = Suc (nat i)" using i0 by (simp add: Suc_nat_eq_nat_zadd1)
  have e6: "i + L + 1 = i + 1 + L" by simp
  have s2: "py_slice codes (Some (i + 1)) (Some (i + L + 1)) = take (nat L) (drop (Suc (nat i)) codes)"
    by (simp only: e4 e5 e6)
  have n: "nat (i + L) = nat i + nat L" using assms by (simp add: nat_add_distrib)
  show "py_slice (index_line L codes [] ! nat i) None (Some (- 1))
           = py_slice codes (Some i) (Some (i + L))"
    by (simp only: w s1 window_pair(1) [OF b])
  show "py_slice (index_line L codes [] ! nat i) (Some 1) None
           = py_slice codes (Some (i + 1)) (Some (i + L + 1))"
    by (simp only: w s2 window_pair(2) [OF b])
  show "py_slice codes (Some (i + 1)) (Some (i + L + 1))
           = drop 1 (py_slice codes (Some i) (Some (i + L)) @ [codes ! nat (i + L)])"
    by (simp only: s1 s2 n window_pair(3) [OF b])
qed

lemma py_index_in_range:
  "0 \<le> j \<Longrightarrow> nat j < length xs \<Longrightarrow> py_index xs j = Inr (xs ! nat j)"
  by (simp add: py_index_def)

lemma preprocess_data:
  assumes pre: "preprocess self = Inr ds" and d0: "data self = []"
  shows "data ds = concat (map (\<lambda>p. index_line (sequence_length self)
                                   (map (\<lambda>ch. the (char2idx ds ch)) p) []) (poems self))"
proof -
  let ?c2i = "build_char2idx (sorted_chars (concat (poems self)))"
  have sub: "set (concat (poems self)) \<subseteq> dom ?c2i"
    by (simp add: build_char2idx_dom sorted_chars_set)
  have "index_poems ?c2i (sequence_length self) (poems self) [] = Inr (data ds)"
    using preprocess_fields(5) [OF pre] d0 by simp
  then show ?thesis
    by (simp add: index_poems_eq [OF sub] preprocess_fields(1) [OF pre])
qed

lemma preprocess_encode:
  assumes pre: "preprocess self = Inr ds" and k: "p \<in> set (poems self)"
  shows "encode (char2idx ds) p = Inr (map (\<lambda>ch. the (char2idx ds ch)) p)"
proof -
  have "set p \<subseteq> dom (char2idx ds)"
    using k by (auto simp: preprocess_fields(1) [OF pre] build_char2idx_dom sorted_chars_set)
  then show ?thesis by (rule encode_total)
qed

section \<open>The small corpus, preprocessed\<close>

lemma scenario_chars: "sorted_chars (concat (poems scenario)) = [97, 98, 99]"
  by (simp add: scenario_def sorted_chars_code)

lemma scenario_c2i: "build_char2idx [97, 98, 99] = [97 \<mapsto> 0, 98 \<mapsto> 1, 99 \<mapsto> 2]"
  by (simp add: build_char2idx_def numeral_2_eq_2)

lemma scenario_i2c: "build_idx2char [97, 98, 99] = [0 \<mapsto> 97, 1 \<mapsto> 98, 2 \<mapsto> 99]"
  by (simp add: build_idx2char_def numeral_2_eq_2)

lemma scenario_preprocess: "preprocess scenario = Inr scenario_ds"
  unfolding preprocess_def Let_def scenario_chars scenario_c2i scenario_i2c
  by (simp add: scenario_def scenario_ds_def index_line_def py_range_def upto_rec1
        py_slice_def slice_bound_def)

lemma scenario_data: "data scenario = []"
  by (simp add: scenario_def)

lemma scenario_freq_chars: "sorted_chars (concat (poems scenario_freq)) = [97, 98, 99]"
  by (simp add: scenario_freq_def sorted_chars_code)

lemma scenario_freq_preprocess: "preprocess scenario_freq = Inr scenario_freq_ds"
  unfolding preprocess_def Let_def scenario_freq_chars scenario_c2i scenario_i2c
  by (simp add: scenario_freq_def scenario_freq_ds_def index_line_def py_range_def upto_rec1
        py_slice_def slice_bound_def)

lemma nth_strict_mono:
  fixes xs :: "'a::linorder list"
  assumes "sorted xs" "distinct xs" "i < length xs" "j < length xs"
  shows "xs ! i < xs ! j \<longleftrightarrow> i < j"
proof -
  have s: "sorted_wrt (<) xs" using assms by (simp add: strict_sorted_iff)
  have a: "xs ! a < xs ! b" if "a < b" "b < length xs" for a b
    using sorted_wrt_nth_less [OF s that] .
  show ?thesis
  proof
    assume l: "xs ! i < xs ! j"
    show "i < j"
    proof (rule ccontr)
      assume "\<not> i < j"
      then have "j < i \<or> j = i" by auto
      then show False using a [of j i] assms(3) l by auto
    qed
  next
    assume "i < j" then show "xs ! i < xs ! j" using a assms(4) by simp
  qed
qed

section \<open>Facts about the empty corpus\<close>

lemma split_sep_not_Nil: "split_sep sep s \<noteq> []"
  by (induction s) (auto split: list.splits)

lemma preprocess_total:
  "\<exists>ds. preprocess self = Inr ds"
proof -
  let ?c2i = "build_char2idx (sorted_chars (concat (poems self)))"
  have sub: "set (concat (poems self)) \<subseteq> dom ?c2i"
    by (simp add: build_char2idx_dom sorted_chars_set)
  show ?thesis
    by (simp add: preprocess_def Let_def index_poems_eq [OF sub])
qed

lemma index_line_empty: "0 \<le> L \<Longrightarrow> index_line L [] d = d"
  by (simp add: index_line_eq)

lemma index_poems_empty:
  "0 \<le> L \<Longrightarrow> concat ps = [] \<Longrightarrow> index_poems c2i L ps d = Inr d"
  by (induction ps arbitrary: d) (simp_all add: index_line_empty)

section \<open>Facts about the sampler\<close>

lemma select_max_lt: "v \<noteq> [] \<Longrightarrow> select_max v < length v"
proof -
  assume "v \<noteq> []"
  then have "Max (set v) \<in> set v" by (intro Max_in) simp_all
  then have "takeWhile (\<lambda>x. x \<noteq> Max (set v)) v \<noteq> v"
    by (auto simp: takeWhile_eq_all_conv)
  moreover have "length (takeWhile (\<lambda>x. x \<noteq> Max (set v)) v) \<le> length v"
    by (rule length_takeWhile_le)
  ultimately show ?thesis
    unfolding select_max_def
    by (metis le_neq_implies_less takeWhile_eq_take take_all_iff order_refl)
qed

lemma argmax_from_select:
  "pre \<noteq> [] \<Longrightarrow>
   argmax_from (length pre) (Max (set pre)) (select_max pre) ys = select_max (pre @ ys)"
proof (induction ys arbitrary: pre)
  case Nil
  then show ?case by simp
next
  case (Cons y ys)
  let ?M = "Max (set pre)"
  have Min: "?M \<in> set pre" using Cons.prems by (intro Max_in) simp_all
  have ne: "pre @ [y] \<noteq> []" by simp
  show ?case
  proof (cases "?M < y")
    case True
    have "Max (insert y (set pre)) = max y ?M"
      by (rule Max_insert) (use Cons.prems in simp_all)
    then have M': "Max (set (pre @ [y])) = y"
      using True by (simp only: set_append list.set Un_insert_right sup_bot.right_neutral max_def)
        (simp split: if_splits)
    have "\<forall>x \<in> set pre. x \<noteq> y" using True Max_ge [of "set pre"] by fastforce
    then have s': "select_max (pre @ [y]) = length pre"
      by (simp add: select_max_def M' del: set_append)
    show ?thesis
      using Cons.IH [OF ne] True by (simp add: M' s' del: set_append)
  next
    case False
    have "Max (insert y (set pre)) = max y ?M"
      by (rule Max_insert) (use Cons.prems in simp_all)
    then have M': "Max (set (pre @ [y])) = ?M"
      using False by (simp only: set_append list.set Un_insert_right sup_bot.right_neutral max_def)
        (simp split: if_splits)
    have s': "select_max (pre @ [y]) = select_max pre"
      using Min by (simp add: select_max_def M' takeWhile_append1 del: set_append)
    show ?thesis
      using Cons.IH [OF ne] False by (simp add: M' s' del: set_append)
  qed
qed

lemma argmax_select_max: "v \<noteq> [] \<Longrightarrow> argmax v = Inr (select_max v)"
proof (cases v)
  case Nil
  assume "v \<noteq> []" then show ?thesis using Nil by simp
next
  case (Cons y ys)
  have "argmax_from (length [y]) (Max (set [y])) (select_max [y]) ys = select_max ([y] @ ys)"
    by (rule argmax_from_select) simp
  then show ?thesis using Cons by (simp add: argmax_def select_max_def)
qed

lemma argmax_lt: "argmax v = Inr p \<Longrightarrow> p < length v"
  using argmax_select_max [of v] select_max_lt [of v]
  by (cases v) (auto simp: argmax_def)

lemma mapM_total: "(\<And>x. x \<in> set xs \<Longrightarrow> f x = Inr (g x)) \<Longrightarrow> mapM f xs = Inr (map g xs)"
  by (induction xs) simp_all

lemma mapM_Inr: "mapM f xs = Inr ys \<Longrightarrow> list_all2 (\<lambda>x y. f x = Inr y) xs ys"
  by (induction xs arbitrary: ys) (auto split: sum.splits)

lemma mapM_Inr_set:
  "mapM f xs = Inr ys \<Longrightarrow> y \<in> set ys \<Longrightarrow> \<exists>x \<in> set xs. f x = Inr y"
  by (induction xs arbitrary: ys) (auto split: sum.splits)

lemma mapM_Inl: "mapM f xs = Inl e \<Longrightarrow> \<exists>x \<in> set xs. f x = Inl e"
  by (induction xs) (auto split: sum.splits)

lemma mapM_length: "mapM f xs = Inr ys \<Longrightarrow> length ys = length xs"
  by (drule mapM_Inr) (simp add: list_all2_lengthD)

lemma constant_net_ok: "net_ok constant_net 1 128 3"
  by (simp add: net_ok_def constant_net_def zeros_def)

lemma py_index_last: "xs \<noteq> [] \<Longrightarrow> py_index xs (- 1) = Inr (last xs)"
  by (cases xs rule: rev_cases) (simp_all add: py_index_def nth_append)

lemma py_index_set: "py_index xs i = Inr x \<Longrightarrow> x \<in> set xs"
  by (auto simp: py_index_def split: if_splits)

lemma py_index_Inl: "py_index xs i = Inl e \<Longrightarrow> e = IndexError"
  by (auto simp: py_index_def split: if_splits)

lemma forward_ok:
  assumes "\<forall>row \<in> set x. \<forall>code \<in> set row. code < num_embeddings (embed m)"
    and "shape (fst st) = [num_layers (lstm m), length x, hidden_size (lstm m)]"
    and "shape (snd st) = [num_layers (lstm m), length x, hidden_size (lstm m)]"
    and "\<forall>row \<in> set x. row \<noteq> []"
  shows "forward net m x st = Inr (net (weights m) x st)"
  using assms by (auto simp: forward_def not_le)

lemma forward_cases:
  "forward net m x st = Inl IndexError \<or> forward net m x st = Inl ShapeError
   \<or> forward net m x st = Inl RuntimeError
   \<or> forward net m x st = Inr (net (weights m) x st)"
  by (simp add: forward_def)

lemma forward_empty_sequence:
  assumes "shape (fst st) = [num_layers (lstm m), 1, hidden_size (lstm m)]"
    and "shape (snd st) = [num_layers (lstm m), 1, hidden_size (lstm m)]"
  shows "forward net m [[]] st = Inl RuntimeError"
  using assms by (simp add: forward_def)

lemma net_ok_single:
  assumes ok: "net_ok net nl hs V"
  shows "\<exists>row. fst (net w [inp] st) = [row] \<and> length row = length inp \<and> (\<forall>v \<in> set row. length v = V)"
    and "shape (fst (snd (net w [inp] st))) = [nl, 1, hs]"
    and "shape (snd (snd (net w [inp] st))) = [nl, 1, hs]"
proof -
  let ?out = "fst (net w [inp] st)"
  from ok have l: "length ?out = length [inp]"
    and r: "\<forall>b < length [inp]. length (?out ! b) = length ([inp] ! b) \<and> (\<forall>v \<in> set (?out ! b). length v = V)"
    and s1: "shape (fst (snd (net w [inp] st))) = [nl, length [inp], hs]"
    and s2: "shape (snd (snd (net w [inp] st))) = [nl, length [inp], hs]"
    unfolding net_ok_def by blast+
  from l obtain row where row: "?out = [row]" by (cases ?out) auto
  show "\<exists>row. ?out = [row] \<and> length row = length inp \<and> (\<forall>v \<in> set row. length v = V)"
    using r row by auto
  show "shape (fst (snd (net w [inp] st))) = [nl, 1, hs]" using s1 by simp
  show "shape (snd (snd (net w [inp] st))) = [nl, 1, hs]" using s2 by simp
qed

lemma predict_loop_ok:
  assumes ok: "net_ok net 1 h V"
    and m: "mdl = LSTMModel_init V e h 1 w"
    and dec: "\<forall>p < V. idx2char dataset p = Some (dec p)"
  shows "inp \<noteq> [] \<Longrightarrow> (\<forall>c \<in> set inp. c < V) \<Longrightarrow>
         shape (fst st) = [1, 1, h] \<Longrightarrow> shape (snd st) = [1, 1, h] \<Longrightarrow>
         predict_loop net mdl dataset n [inp] st acc
           = Inr (acc @ greedy_continuation net w dec n inp st)"
proof (induction n arbitrary: inp st acc)
  case 0
  then show ?case by simp
next
  case (Suc n)
  have V0: "0 < V" using Suc.prems(1,2) by (cases inp) auto
  have f: "forward net mdl [inp] st = Inr (net w [inp] st)"
    using Suc.prems m by (intro forward_ok [THEN trans]) (simp_all add: LSTMModel_init_def)
  obtain row where row: "fst (net w [inp] st) = [row]" "length row = length inp"
      "\<forall>v \<in> set row. length v = V"
    using net_ok_single(1) [OF ok, of w inp st] by blast
  have rne: "row \<noteq> []" using row(2) Suc.prems(1) by auto
  have vne: "\<And>v. v \<in> set row \<Longrightarrow> v \<noteq> []" using row(3) V0 by auto
  have am: "argmax_dim2 [row] = Inr [map select_max row]"
    using mapM_total [of row argmax select_max] vne
    by (simp add: argmax_dim2_def argmax_select_max)
  let ?p = "select_max (last row)"
  have lc: "last_column [map select_max row] = Inr [?p]"
    using rne by (simp add: last_column_def py_index_last last_map)
  have pV: "?p < V" using select_max_lt [of "last row"] vne [of "last row"] row(3) rne by simp
  have d: "idx2char dataset ?p = Some (dec ?p)" using dec pV by simp
  have s1: "shape (fst (snd (net w [inp] st))) = [1, 1, h]"
    and s2: "shape (snd (snd (net w [inp] st))) = [1, 1, h]"
    using net_ok_single(2,3) [OF ok] by simp_all
  have IH: "predict_loop net mdl dataset n [[?p]] (snd (net w [inp] st)) (acc @ [dec ?p])
           = Inr ((acc @ [dec ?p]) @ greedy_continuation net w dec n [?p] (snd (net w [inp] st)))"
    by (rule Suc.IH) (use pV s1 s2 in simp_all)
  obtain out st' where o: "net w [inp] st = (out, st')" by (cases "net w [inp] st")
  show ?case
    using f am lc d IH row(1) o by (simp add: item_def Let_def)
qed

lemma greedy_continuation_length: "length (greedy_continuation net w dec n inp st) = n"
  by (induction n arbitrary: inp st) (simp_all add: Let_def)

lemma predict_loop_empty_input:
  "\<exists>e. predict_loop net mdl dataset (Suc n) [[]] st acc = Inl e"
proof -
  have "forward net mdl [[]] st = Inl IndexError \<or> forward net mdl [[]] st = Inl ShapeError
      \<or> forward net mdl [[]] st = Inl RuntimeError"
    by (simp add: forward_def)
  then show ?thesis by auto
qed

lemma net_ok_vectors:
  assumes ok: "net_ok net nl hs V" and r: "row \<in> set (fst (net w x st))" and v: "v \<in> set row"
  shows "length v = V"
proof -
  from r obtain b where b: "b < length (fst (net w x st))" "row = fst (net w x st) ! b"
    by (auto simp: in_set_conv_nth)
  from ok have "length (fst (net w x st)) = length x"
    and "\<forall>b < length x. length (fst (net w x st) ! b) = length (x ! b)
            \<and> (\<forall>v \<in> set (fst (net w x st) ! b). length v = V)"
    unfolding net_ok_def by blast+
  then show ?thesis using b v by auto
qed

lemma argmax_dim2_Inl: "argmax_dim2 out = Inl e \<Longrightarrow> e = IndexError"
proof -
  assume "argmax_dim2 out = Inl e"
  then obtain row where "mapM argmax row = Inl e"
    unfolding argmax_dim2_def by (blast dest: mapM_Inl)
  then obtain v where "argmax v = Inl e" by (blast dest: mapM_Inl)
  then show ?thesis by (auto simp: argmax_def split: list.splits)
qed

lemma last_column_Inl: "last_column am = Inl e \<Longrightarrow> e = IndexError"
  unfolding last_column_def by (blast dest: mapM_Inl py_index_Inl)

lemma item_Inr: "item t = Inr p \<Longrightarrow> t = [p]"
  by (auto simp: item_def split: list.splits)

lemma item_Inl: "item t = Inl e \<Longrightarrow> e = ValueError"
  by (auto simp: item_def split: list.splits)

lemma predicted_code_lt:
  assumes ok: "net_ok net nl hs V"
    and am: "argmax_dim2 (fst (net w x st)) = Inr am"
    and lc: "last_column am = Inr t"
    and p: "p \<in> set t"
  shows "p < V"
proof -
  from lc p obtain row' where r': "row' \<in> set am" "py_index row' (- 1) = Inr p"
    unfolding last_column_def by (blast dest: mapM_Inr_set)
  then have pin: "p \<in> set row'" by (blast dest: py_index_set)
  from am r'(1) obtain row where r: "row \<in> set (fst (net w x st))" "mapM argmax row = Inr row'"
    unfolding argmax_dim2_def by (blast dest: mapM_Inr_set)
  from r(2) pin obtain v where v: "v \<in> set row" "argmax v = Inr p"
    by (blast dest: mapM_Inr_set)
  show ?thesis using argmax_lt [OF v(2)] net_ok_vectors [OF ok r(1) v(1)] by simp
qed

lemma predict_loop_no_KeyError:
  assumes ok: "net_ok net nl hs V" and dec: "\<forall>p < V. idx2char dataset p \<noteq> None"
  shows "predict_loop net mdl dataset n x st acc \<noteq> Inl (KeyError k)"
proof (induction n arbitrary: x st acc)
  case 0
  show ?case by simp
next
  case (Suc n)
  consider (err) e where "forward net mdl x st = Inl e"
      "e = IndexError \<or> e = ShapeError \<or> e = RuntimeError"
    | (run) "forward net mdl x st = Inr (net (weights mdl) x st)"
    using forward_cases [of net mdl x st] by blast
  then show ?case
  proof cases
    case err
    then show ?thesis by auto
  next
    case run
    obtain out st' where o: "net (weights mdl) x st = (out, st')"
      by (cases "net (weights mdl) x st")
    show ?thesis
    proof (cases "argmax_dim2 out")
      case (Inl e)
      then show ?thesis using run o argmax_dim2_Inl [OF Inl] by simp
    next
      case am: (Inr am)
      show ?thesis
      proof (cases "last_column am")
        case (Inl e)
        then show ?thesis using run o am last_column_Inl [OF Inl] by simp
      next
        case lc: (Inr t)
        show ?thesis
        proof (cases "item t")
          case (Inl e)
          then show ?thesis using run o am lc item_Inl [OF Inl] by simp
        next
          case (Inr p)
          have "p \<in> set t" using item_Inr [OF Inr] by simp
          then have "p < V"
            using predicted_code_lt [OF ok, of "weights mdl" x st am t p] am lc o by simp
          then obtain ch where "idx2char dataset p = Some ch" using dec by auto
          then show ?thesis using run o am lc Inr Suc.IH by simp
        qed
      qed
    qed
  qed
qed

lemma encode_fail:
  "\<not> set s \<subseteq> dom c2i \<Longrightarrow> \<exists>c. c \<in> set s \<and> c2i c = None \<and> encode c2i s = Inl (KeyError (CharKey c))"
proof (induction s)
  case Nil
  then show ?case by simp
next
  case (Cons ch s)
  show ?case
  proof (cases "c2i ch")
    case None
    then show ?thesis by auto
  next
    case (Some i)
    then have "\<not> set s \<subseteq> dom c2i" using Cons.prems by auto
    from Cons.IH [OF this] obtain c where "c \<in> set s" "c2i c = None"
      "encode c2i s = Inl (KeyError (CharKey c))" by blast
    then show ?thesis using Some by auto
  qed
qed

lemma length_py_range: "length (py_range 0 N) = nat N"
  by (simp add: py_range_def)

lemma scenario_V: "card (set (concat (poems scenario))) = 3"
  by (simp only: sorted_chars_length [symmetric] scenario_chars) simp

section \<open>Facts about the training loop\<close>

lemma chunks_Nil: "chunks k [] = []"
  by (simp add: chunks.simps)

lemma chunks_step: "0 < k \<Longrightarrow> xs \<noteq> [] \<Longrightarrow> chunks k xs = take k xs # chunks k (drop k xs)"
  by (subst chunks.simps) simp

lemma chunks_structure:
  assumes k: "0 < k"
  shows "length xs = q * k + r \<Longrightarrow> 0 < r \<Longrightarrow> r < k \<Longrightarrow>
         \<exists>full lst. chunks k xs = full @ [lst] \<and> length full = q
            \<and> (\<forall>b \<in> set full. length b = k \<and> set b \<subseteq> set xs)
            \<and> length lst = r \<and> set lst \<subseteq> set xs"
proof (induction q arbitrary: xs)
  case 0
  then have ne: "xs \<noteq> []" by auto
  have "chunks k xs = [xs]"
    using 0 by (simp add: chunks_step [OF k ne] chunks_Nil)
  then show ?case using 0 by simp
next
  case (Suc q)
  then have ne: "xs \<noteq> []" by auto
  have len: "length (drop k xs) = q * k + r" using Suc.prems by simp
  from Suc.IH [OF len Suc.prems(2,3)] obtain full lst where
    f: "chunks k (drop k xs) = full @ [lst]" "length full = q"
       "\<forall>b \<in> set full. length b = k \<and> set b \<subseteq> set (drop k xs)"
       "length lst = r" "set lst \<subseteq> set (drop k xs)"
    by blast
  have d: "set (drop k xs) \<subseteq> set xs" by (rule set_drop_subset)
  have t: "length (take k xs) = k \<and> set (take k xs) \<subseteq> set xs"
    using Suc.prems by (simp add: set_take_subset)
  have "chunks k xs = (take k xs # full) @ [lst]"
    by (simp add: chunks_step [OF k ne] f(1))
  moreover have "length (take k xs # full) = Suc q" using f(2) by simp
  moreover have "\<forall>b \<in> set (take k xs # full). length b = k \<and> set b \<subseteq> set xs"
    using f(3) d t by auto
  moreover have "set lst \<subseteq> set xs" using f(5) d by blast
  ultimately show ?case using f(4) by blast
qed

lemma chunks_not_dvd:
  assumes "0 < k" "\<not> k dvd length xs"
  shows "\<exists>full lst. chunks k xs = full @ [lst] \<and> length full = length xs div k
            \<and> (\<forall>b \<in> set full. length b = k \<and> set b \<subseteq> set xs)
            \<and> length lst = length xs mod k \<and> set lst \<subseteq> set xs
            \<and> 0 < length xs mod k \<and> length xs mod k < k"
proof -
  have r: "0 < length xs mod k" "length xs mod k < k"
    using assms by (simp_all add: dvd_eq_mod_eq_0)
  have "length xs = length xs div k * k + length xs mod k" by simp
  from chunks_structure [OF assms(1) this r] r show ?thesis by blast
qed

lemma window_of_line:
  assumes L0: "0 \<le> L" and w: "w \<in> set (index_line L codes [])"
  shows "length w = Suc (nat L) \<and> set w \<subseteq> set codes"
proof -
  from w obtain j where j: "j \<in> set [0..int (length codes) - L - 1]"
      and wj: "w = py_slice codes (Some j) (Some (j + L + 1))"
    by (auto simp: index_line_eq)
  have j0: "0 \<le> j" and jN: "j + (L + 1) \<le> int (length codes)" using j by simp_all
  have "py_slice codes (Some j) (Some (j + (L + 1))) = take (nat (L + 1)) (drop (nat j) codes)"
    by (rule slice_window) (use j0 L0 jN in simp_all)
  then have e: "w = take (nat (L + 1)) (drop (nat j) codes)" using wj by (simp add: add.assoc)
  have "nat (L + 1) \<le> length codes - nat j" using j0 L0 jN by linarith
  then have "length w = nat (L + 1)" by (simp add: e)
  moreover have "nat (L + 1) = Suc (nat L)" using L0 by (simp add: Suc_nat_eq_nat_zadd1)
  moreover have "set w \<subseteq> set codes"
    unfolding e using set_take_subset set_drop_subset by (metis order_trans)
  ultimately show ?thesis by simp
qed

lemma codes_below_V:
  assumes pre: "preprocess self = Inr ds" and c: "char2idx ds ch = Some i"
  shows "i < card (set (concat (poems self)))"
  using c build_char2idx_iff [OF sorted_chars_distinct, of "concat (poems self)" ch i]
  by (simp add: preprocess_fields(1) [OF pre] sorted_chars_length)

lemma window_of_dataset:
  assumes pre: "preprocess self = Inr ds" and d0: "data self = []"
    and L0: "0 \<le> sequence_length self" and w: "w \<in> set (data ds)"
  shows "length w = Suc (nat (sequence_length self))
       \<and> (\<forall>c \<in> set w. c < card (set (concat (poems self))))"
proof -
  let ?enc = "\<lambda>p. map (\<lambda>ch. the (char2idx ds ch)) p"
  from w obtain p where p: "p \<in> set (poems self)"
      and wp: "w \<in> set (index_line (sequence_length self) (?enc p) [])"
    by (auto simp: preprocess_data [OF pre d0])
  have a: "length w = Suc (nat (sequence_length self))" and b: "set w \<subseteq> set (?enc p)"
    using window_of_line [OF L0 wp] by simp_all
  have "c < card (set (concat (poems self)))" if "c \<in> set (?enc p)" for c
  proof -
    from that obtain ch where ch: "ch \<in> set p" "c = the (char2idx ds ch)" by auto
    have "ch \<in> dom (char2idx ds)"
      using ch(1) p by (auto simp: preprocess_fields(1) [OF pre] build_char2idx_dom sorted_chars_set)
    then obtain i where i: "char2idx ds ch = Some i" by auto
    show ?thesis using codes_below_V [OF pre i] ch(2) i by simp
  qed
  then show ?thesis using a b by blast
qed

text \<open>The sample at a position of the dataset, as \<open>__getitem__\<close> computes it from the window.\<close>

lemma getitem_sample:
  assumes pre: "preprocess self = Inr ds" and d0: "data self = []"
    and L0: "0 \<le> sequence_length self" and i: "i < len ds"
  shows "getitem ds (int i) = Inr (butlast (data ds ! i), drop 1 (data ds ! i))"
    and "length (butlast (data ds ! i)) = nat (sequence_length self)"
    and "length (drop 1 (data ds ! i)) = nat (sequence_length self)"
    and "\<forall>c \<in> set (butlast (data ds ! i)). c < card (set (concat (poems self)))"
    and "\<forall>c \<in> set (drop 1 (data ds ! i)). c < card (set (concat (poems self)))"
proof -
  let ?w = "data ds ! i"
  have win: "?w \<in> set (data ds)" using i by (simp add: len_def)
  note W = window_of_dataset [OF pre d0 L0 win]
  have ne: "?w \<noteq> []" using W by auto
  have "py_index (data ds) (int i) = Inr (data ds ! nat (int i))"
    by (rule py_index_in_range) (use i in \<open>simp_all add: len_def\<close>)
  then show "getitem ds (int i) = Inr (butlast ?w, drop 1 ?w)"
    by (simp add: getitem_def slice_butlast [OF ne] slice_tl)
  show "length (butlast ?w) = nat (sequence_length self)" using W by simp
  show "length (drop 1 ?w) = nat (sequence_length self)" using W by simp
  show "\<forall>c \<in> set (butlast ?w). c < card (set (concat (poems self)))"
    using W by (auto dest: in_set_butlastD)
  show "\<forall>c \<in> set (drop 1 ?w). c < card (set (concat (poems self)))"
    using W by (auto dest: in_set_dropD)
qed

lemma fetch_batch:
  assumes pre: "preprocess self = Inr ds" and d0: "data self = []"
    and L0: "0 \<le> sequence_length self" and b: "\<forall>i \<in> set b. i < len ds"
  shows "\<exists>seq tgt. fetch ds b = Inr (seq, tgt)
           \<and> length seq = length b \<and> length tgt = length b
           \<and> (\<forall>s \<in> set seq. length s = nat (sequence_length self)
                 \<and> (\<forall>c \<in> set s. c < card (set (concat (poems self)))))
           \<and> (\<forall>s \<in> set tgt. length s = nat (sequence_length self)
                 \<and> (\<forall>c \<in> set s. c < card (set (concat (poems self)))))"
proof -
  let ?g = "\<lambda>i. (butlast (data ds ! i), drop 1 (data ds ! i))"
  let ?samples = "map ?g b"
  have m: "mapM (\<lambda>i. getitem ds (int i)) b = Inr ?samples"
    by (rule mapM_total) (use b getitem_sample(1) [OF pre d0 L0] in blast)
  have l1: "\<forall>s \<in> set ?samples. length (fst s) = nat (sequence_length self)"
    using b getitem_sample(2) [OF pre d0 L0] by auto
  have l2: "\<forall>s \<in> set ?samples. length (snd s) = nat (sequence_length self)"
    using b getitem_sample(3) [OF pre d0 L0] by auto
  have h1: "?samples \<noteq> [] \<Longrightarrow> length (fst (hd ?samples)) = nat (sequence_length self)"
    using l1 hd_in_set by blast
  have h2: "?samples \<noteq> [] \<Longrightarrow> length (snd (hd ?samples)) = nat (sequence_length self)"
    using l2 hd_in_set by blast
  have c: "collate ?samples = Inr (map fst ?samples, map snd ?samples)"
  proof (cases "?samples = []")
    case True
    then show ?thesis by (simp add: collate_def)
  next
    case False
    show ?thesis
      unfolding collate_def using l1 l2 h1 [OF False] h2 [OF False] by simp
  qed
  have f: "fetch ds b = Inr (map fst ?samples, map snd ?samples)"
    by (simp only: fetch_def m c sum.case)
  have s1: "\<forall>s \<in> set (map fst ?samples). length s = nat (sequence_length self)
                 \<and> (\<forall>c \<in> set s. c < card (set (concat (poems self))))"
    using b getitem_sample(2,4) [OF pre d0 L0] by auto
  have s2: "\<forall>s \<in> set (map snd ?samples). length s = nat (sequence_length self)
                 \<and> (\<forall>c \<in> set s. c < card (set (concat (poems self))))"
    using b getitem_sample(3,5) [OF pre d0 L0] by auto
  show ?thesis
    by (intro exI [of _ "map fst ?samples"] exI [of _ "map snd ?samples"] conjI f s1 s2) simp_all
qed

lemma train_batches_append:
  "train_batches lib ds (bs @ cs) rh =
     (case train_batches lib ds bs rh of Inl e \<Rightarrow> Inl e | Inr rh' \<Rightarrow> train_batches lib ds cs rh')"
  by (induction bs arbitrary: rh) (simp_all split: sum.splits)

lemma loss_function_ok:
  assumes ok: "net_ok (layers lib) nl hs V"
    and len: "length tgt = length seq"
    and rows: "\<forall>b < length seq. length (tgt ! b) = length (seq ! b)"
    and cls: "\<forall>t \<in> set tgt. \<forall>c \<in> set t. c < V"
  shows "loss_function lib (fst (layers lib w seq st)) tgt
           = Inr (cross_entropy lib (fst (layers lib w seq st)) tgt)"
proof -
  let ?out = "fst (layers lib w seq st)"
  from ok have l: "length ?out = length seq"
    and r: "\<forall>b < length seq. length (?out ! b) = length (seq ! b)"
    unfolding net_ok_def by blast+
  have shp: "map length ?out = map length tgt"
    by (rule nth_equalityI) (use l len r rows in simp_all)
  have "\<not> (\<exists>(row, trow) \<in> set (zip ?out tgt). \<exists>(v, t) \<in> set (zip row trow). length v \<le> t)"
  proof
    assume "\<exists>(row, trow) \<in> set (zip ?out tgt). \<exists>(v, t) \<in> set (zip row trow). length v \<le> t"
    then obtain row trow v t where z: "(row, trow) \<in> set (zip ?out tgt)"
        "(v, t) \<in> set (zip row trow)" "length v \<le> t"
      by auto
    have "row \<in> set ?out" "trow \<in> set tgt" using z(1) by (auto dest: set_zip_leftD set_zip_rightD)
    moreover have "v \<in> set row" "t \<in> set trow" using z(2) by (auto dest: set_zip_leftD set_zip_rightD)
    ultimately have "length v = V" "t < V"
      using net_ok_vectors [OF ok] cls by blast+
    then show False using z(3) by simp
  qed
  then show ?thesis using shp by (simp add: loss_function_def)
qed

lemma train_batch_run:
  assumes ok: "net_ok (layers lib) 1 h V"
    and f: "fetch ds b = Inr (seq, tgt)"
    and len: "length tgt = length seq"
    and sq: "\<forall>s \<in> set seq. length s = l \<and> (\<forall>c \<in> set s. c < V)"
    and tg: "\<forall>s \<in> set tgt. length s = l \<and> (\<forall>c \<in> set s. c < V)"
    and m: "model r = LSTMModel_init V e h 1 w"
    and s1: "shape (fst st) = [1, 32, h]" and s2: "shape (snd st) = [1, 32, h]"
  shows "0 < l \<Longrightarrow> length seq = 32 \<Longrightarrow>
           \<exists>r' st' w'. train_batch lib ds b (r, st) = Inr (r', st')
             \<and> model r' = LSTMModel_init V e h 1 w' \<and> steps r' = steps r + 1
             \<and> shape (fst st') = [1, 32, h] \<and> shape (snd st') = [1, 32, h]"
    and "length seq \<noteq> 32 \<Longrightarrow> train_batch lib ds b (r, st) = Inl ShapeError"
proof -
  have emb: "\<forall>row \<in> set seq. \<forall>code \<in> set row. code < num_embeddings (embed (model r))"
    using sq by (simp add: m LSTMModel_init_def)
  have nl: "num_layers (lstm (model r)) = 1" "hidden_size (lstm (model r)) = h"
      "weights (model r) = w"
    by (simp_all add: m LSTMModel_init_def)
  {
    assume n: "length seq \<noteq> 32"
    have "forward (layers lib) (model r) seq st = Inl ShapeError"
      using emb n s1 by (auto simp: forward_def nl not_le)
    then show "train_batch lib ds b (r, st) = Inl ShapeError"
      by (simp add: train_batch_def f)
  }
  {
    assume lpos: "0 < l" and n: "length seq = 32"
    let ?res = "layers lib w seq st"
    have rne: "\<forall>row \<in> set seq. row \<noteq> []" using sq lpos by auto
    have fw: "forward (layers lib) (model r) seq st = Inr ?res"
      using forward_ok [of seq "model r" st "layers lib"] emb s1 s2 n rne by (simp add: nl)
    have rows: "\<forall>b < length seq. length (tgt ! b) = length (seq ! b)"
      using sq tg len by simp
    have cls: "\<forall>t \<in> set tgt. \<forall>c \<in> set t. c < V" using tg by blast
    have ls: "loss_function lib (fst ?res) tgt = Inr (cross_entropy lib (fst ?res) tgt)"
      by (rule loss_function_ok [OF ok len rows cls])
    from ok have h1: "shape (fst (snd ?res)) = [1, length seq, h]"
      and h2: "shape (snd (snd ?res)) = [1, length seq, h]"
      unfolding net_ok_def by blast+
    obtain out st' where o: "?res = (out, st')" by (cases ?res)
    let ?wo = "adam_step lib w (optimizer r) seq tgt st"
    let ?r' = "r\<lparr>model := (model r)\<lparr>weights := fst ?wo\<rparr>, optimizer := snd ?wo,
                   loss := Some (cross_entropy lib out tgt), steps := steps r + 1\<rparr>"
    have tb: "train_batch lib ds b (r, st) = Inr (?r', st')"
      using fw ls o by (simp add: train_batch_def f nl Let_def)
    have m': "model ?r' = LSTMModel_init V e h 1 (fst ?wo)"
      by (simp add: m LSTMModel_init_def)
    have "shape (fst st') = [1, 32, h]" "shape (snd st') = [1, 32, h]"
      using h1 h2 o n by simp_all
    then show "\<exists>r' st' w'. train_batch lib ds b (r, st) = Inr (r', st')
             \<and> model r' = LSTMModel_init V e h 1 w' \<and> steps r' = steps r + 1
             \<and> shape (fst st') = [1, 32, h] \<and> shape (snd st') = [1, 32, h]"
      using tb m' by (intro exI [of _ ?r'] exI [of _ st'] exI [of _ "fst ?wo"]) simp
  }
qed

lemma train_batches_full:
  assumes ok: "net_ok (layers lib) 1 h (card (set (concat (poems self))))"
    and pre: "preprocess self = Inr ds" and d0: "data self = []"
    and Lp: "0 < sequence_length self"
  shows "(\<forall>b \<in> set bs. length b = 32 \<and> (\<forall>i \<in> set b. i < len ds)) \<Longrightarrow>
         model r = LSTMModel_init (card (set (concat (poems self)))) e h 1 w \<Longrightarrow>
         shape (fst st) = [1, 32, h] \<Longrightarrow> shape (snd st) = [1, 32, h] \<Longrightarrow>
         \<exists>r' st' w'. train_batches lib ds bs (r, st) = Inr (r', st')
            \<and> model r' = LSTMModel_init (card (set (concat (poems self)))) e h 1 w'
            \<and> steps r' = steps r + length bs
            \<and> shape (fst st') = [1, 32, h] \<and> shape (snd st') = [1, 32, h]"
proof (induction bs arbitrary: r st w)
  case Nil
  then show ?case by auto
next
  case (Cons b bs)
  have L0: "0 \<le> sequence_length self" and lpos: "0 < nat (sequence_length self)"
    using Lp by simp_all
  have bi: "\<forall>i \<in> set b. i < len ds" and bl: "length b = 32" using Cons.prems(1) by simp_all
  from fetch_batch [OF pre d0 L0 bi] obtain seq tgt where
    f: "fetch ds b = Inr (seq, tgt)" and ls: "length seq = length b" and lt: "length tgt = length b"
    and sq: "\<forall>s \<in> set seq. length s = nat (sequence_length self)
                 \<and> (\<forall>c \<in> set s. c < card (set (concat (poems self))))"
    and tg: "\<forall>s \<in> set tgt. length s = nat (sequence_length self)
                 \<and> (\<forall>c \<in> set s. c < card (set (concat (poems self))))"
    by blast
  have len: "length tgt = length seq" using ls lt by simp
  have n: "length seq = 32" using ls bl by simp
  from train_batch_run(1) [OF ok f len sq tg Cons.prems(2,3,4) lpos n] obtain r1 st1 w1 where
    s: "train_batch lib ds b (r, st) = Inr (r1, st1)"
    and m1: "model r1 = LSTMModel_init (card (set (concat (poems self)))) e h 1 w1"
    and c1: "steps r1 = steps r + 1"
    and h1: "shape (fst st1) = [1, 32, h]" "shape (snd st1) = [1, 32, h]"
    by blast
  have rest: "\<forall>b \<in> set bs. length b = 32 \<and> (\<forall>i \<in> set b. i < len ds)"
    using Cons.prems(1) by simp
  from Cons.IH [OF rest m1 h1] obtain r' st' w' where
    t: "train_batches lib ds bs (r1, st1) = Inr (r', st')"
    and m': "model r' = LSTMModel_init (card (set (concat (poems self)))) e h 1 w'"
    and c': "steps r' = steps r1 + length bs"
    and h': "shape (fst st') = [1, 32, h]" "shape (snd st') = [1, 32, h]"
    by blast
  have "train_batches lib ds (b # bs) (r, st) = Inr (r', st')" using s t by simp
  moreover have "steps r' = steps r + length (b # bs)" using c1 c' by simp
  ultimately show ?case using m' h' by blast
qed

lemma train_first_epoch:
  "0 < epochs \<Longrightarrow> train_epoch lib ds (sampler 0) 0 r = Inl e \<Longrightarrow>
   train lib ds sampler epochs r = Inl e"
  by (simp add: train_def py_range_def upto_rec1)

lemma constant_torch_ok: "net_ok (layers constant_torch) 1 128 (card (set (concat (poems scenario))))"
  unfolding scenario_V using constant_net_ok by (simp add: constant_torch_def)

lemma chunks_full:
  assumes k: "0 < k"
  shows "length xs = q * k \<Longrightarrow>
         length (chunks k xs) = q \<and> (\<forall>b \<in> set (chunks k xs). length b = k \<and> set b \<subseteq> set xs)"
proof (induction q arbitrary: xs)
  case 0
  then show ?case by (simp add: chunks_Nil)
next
  case (Suc q)
  then have ne: "xs \<noteq> []" using k by auto
  have len: "length (drop k xs) = q * k" using Suc.prems by simp
  note IH = Suc.IH [OF len]
  have d: "set (drop k xs) \<subseteq> set xs" by (rule set_drop_subset)
  have t: "length (take k xs) = k \<and> set (take k xs) \<subseteq> set xs"
    using Suc.prems by (simp add: set_take_subset)
  show ?case
    using IH d t by (auto simp: chunks_step [OF k ne])
qed

text \<open>
  When 32 divides the length of the dataset (and the sequence length is positive), every
  batch of an epoch is trained: the loop over the batches ends without error after
  \<open>length div 32\<close> optimizer steps.
\<close>

lemma train_batches_divisible:
  assumes pre: "preprocess self = Inr dataset" and d0: "data self = []"
    and L0: "0 < sequence_length self"
    and ok: "net_ok (layers lib) 1 h (card (set (concat (poems self))))"
    and m: "model r = LSTMModel_init (card (set (concat (poems self)))) e h 1 w"
    and perm: "distinct order \<and> set order = {0..<len dataset}"
    and dv: "32 dvd len dataset"
  shows "\<exists>r' st'. train_batches lib dataset (data_loader order) (r, init_hidden (model r) 32)
                     = Inr (r', st')
           \<and> steps r' = steps r + len dataset div 32"
proof -
  let ?n = "len dataset"
  have so: "set order = {0..<?n}" using perm by simp
  have "card (set order) = length order" using perm by (intro distinct_card) simp
  then have lo: "length order = ?n" unfolding so by simp
  have "length order = ?n div 32 * 32" using dv lo by simp
  from chunks_full [OF _ this] have
    cl: "length (chunks 32 order) = ?n div 32"
    and cb: "\<forall>b \<in> set (chunks 32 order). length b = 32 \<and> set b \<subseteq> set order"
    by simp_all
  have fb: "\<forall>b \<in> set (data_loader order). length b = 32 \<and> (\<forall>i \<in> set b. i < ?n)"
  proof (intro ballI conjI)
    fix b assume b: "b \<in> set (data_loader order)"
    then show "length b = 32" using cb by (simp add: data_loader_def)
    have b': "b \<in> set (chunks 32 order)" using b by (simp add: data_loader_def)
    fix i assume "i \<in> set b"
    then have "i \<in> {0..<?n}" using cb b' so by blast
    then show "i < ?n" by simp
  qed
  have ih: "shape (fst (init_hidden (model r) 32)) = [1, 32, h]"
      "shape (snd (init_hidden (model r) 32)) = [1, 32, h]"
    by (simp_all add: init_hidden_def zeros_def m LSTMModel_init_def)
  from train_batches_full [OF ok pre d0 L0 fb m ih] cl show ?thesis
    by (auto simp: data_loader_def)
qed

section \<open>The properties of the specification\<close>

text \<open>
  C1. The windowed sequence indexer. For a corpus indexed from an empty \<open>data\<close> list with
  sequence length \<open>L\<close>: the dataset's length is the sum over the lines of
  \<open>max(0, length - L)\<close>, each line of encoded length \<open>N\<close> adding exactly \<open>max(0, N - L)\<close>
  windows (so a line shorter than \<open>L + 1\<close> adds none); and, \<open>L\<close> being a length
  (\<open>0 \<le> L\<close>), the samples of line \<open>k\<close> follow those of the lines before it, the \<open>i\<close>-th
  being \<open>(codes[i : i+L], codes[i+1 : i+L+1])\<close> for \<open>i\<close> in \<open>[0, N - L)\<close>, whose target is
  its input with the next code of the line appended, shifted by one position.
\<close>

theorem windowed_samples:
  assumes pre: "preprocess self = Inr ds" and d0: "data self = []"
  shows "len ds = sum_list (map (\<lambda>p. nat (max 0 (int (length p) - sequence_length self))) (poems self))
       \<and> (\<forall>codes d. length (index_line (sequence_length self) codes d)
                      = length d + nat (max 0 (int (length codes) - sequence_length self)))
       \<and> (0 \<le> sequence_length self \<longrightarrow>
           (\<forall>k < length (poems self). \<exists>codes.
               encode (char2idx ds) (poems self ! k) = Inr codes
             \<and> length codes = length (poems self ! k)
             \<and> (\<forall>i. 0 \<le> i \<and> i < int (length codes) - sequence_length self \<longrightarrow>
                   getitem ds (int (sum_list (map (\<lambda>p. nat (max 0 (int (length p) - sequence_length self)))
                                               (take k (poems self)))) + i)
                     = Inr (py_slice codes (Some i) (Some (i + sequence_length self)),
                            py_slice codes (Some (i + 1)) (Some (i + sequence_length self + 1)))
                 \<and> py_slice codes (Some (i + 1)) (Some (i + sequence_length self + 1))
                     = drop 1 (py_slice codes (Some i) (Some (i + sequence_length self))
                               @ [codes ! nat (i + sequence_length self)]))))"
proof -
  let ?L = "sequence_length self"
  let ?enc = "\<lambda>p. map (\<lambda>ch. the (char2idx ds ch)) p"
  let ?W = "\<lambda>p. index_line ?L (?enc p) []"
  let ?cnt = "\<lambda>p. nat (max 0 (int (length p) - ?L))"
  have dat: "data ds = concat (map ?W (poems self))"
    by (rule preprocess_data [OF pre d0])
  have lenW: "length (?W p) = ?cnt p" for p
    by (simp add: length_index_line)
  have off: "length (concat (take k (map ?W (poems self)))) = sum_list (map ?cnt (take k (poems self)))" for k
    by (simp add: length_concat take_map [symmetric] comp_def lenW del: length_map)
  have c1: "len ds = sum_list (map ?cnt (poems self))"
    by (simp add: len_def dat length_concat comp_def lenW)
  have c2: "\<forall>codes d. length (index_line ?L codes d) = length d + nat (max 0 (int (length codes) - ?L))"
    by (simp add: length_index_line)
  have c3: "\<forall>k < length (poems self). \<exists>codes.
               encode (char2idx ds) (poems self ! k) = Inr codes
             \<and> length codes = length (poems self ! k)
             \<and> (\<forall>i. 0 \<le> i \<and> i < int (length codes) - ?L \<longrightarrow>
                   getitem ds (int (sum_list (map ?cnt (take k (poems self)))) + i)
                     = Inr (py_slice codes (Some i) (Some (i + ?L)),
                            py_slice codes (Some (i + 1)) (Some (i + ?L + 1)))
                 \<and> py_slice codes (Some (i + 1)) (Some (i + ?L + 1))
                     = drop 1 (py_slice codes (Some i) (Some (i + ?L)) @ [codes ! nat (i + ?L)]))"
    if L0: "0 \<le> ?L"
  proof (intro allI impI)
    fix k assume k: "k < length (poems self)"
    let ?p = "poems self ! k"
    let ?codes = "?enc ?p"
    have e: "encode (char2idx ds) ?p = Inr ?codes"
      using k by (intro preprocess_encode [OF pre]) simp
    have samples: "getitem ds (int (sum_list (map ?cnt (take k (poems self)))) + i)
                     = Inr (py_slice ?codes (Some i) (Some (i + ?L)),
                            py_slice ?codes (Some (i + 1)) (Some (i + ?L + 1)))
                 \<and> py_slice ?codes (Some (i + 1)) (Some (i + ?L + 1))
                     = drop 1 (py_slice ?codes (Some i) (Some (i + ?L)) @ [?codes ! nat (i + ?L)])"
      if i: "0 \<le> i \<and> i < int (length ?codes) - ?L" for i
    proof -
      have i0: "0 \<le> i" and iN: "i < int (length ?codes) - ?L" using i by simp_all
      have k': "k < length (map ?W (poems self))" using k by simp
      have Wk: "map ?W (poems self) ! k = ?W ?p" using k by simp
      have inW: "nat i < length (map ?W (poems self) ! k)"
        using index_line_nth(2) [OF i0 iN] by (simp only: Wk)
      let ?o = "sum_list (map ?cnt (take k (poems self)))"
      have lt: "?o + nat i < length (data ds)"
        using nth_concat_offset(1) [OF k' inW] by (simp only: dat off)
      have nth: "data ds ! (?o + nat i) = ?W ?p ! nat i"
        using nth_concat_offset(2) [OF k' inW] by (simp only: dat off Wk)
      have nj: "nat (int ?o + i) = ?o + nat i" using i0 by (simp add: nat_add_distrib)
      have "py_index (data ds) (int ?o + i) = Inr (data ds ! nat (int ?o + i))"
        by (rule py_index_in_range) (use i0 lt nj in simp_all)
      then have idx: "py_index (data ds) (int ?o + i) = Inr (?W ?p ! nat i)"
        by (simp only: nj nth)
      show ?thesis
        using sample_of_line [OF L0 i0 iN]
        by (simp only: getitem_def idx sum.case)
    qed
    show "\<exists>codes. encode (char2idx ds) ?p = Inr codes \<and> length codes = length ?p
             \<and> (\<forall>i. 0 \<le> i \<and> i < int (length codes) - ?L \<longrightarrow>
                   getitem ds (int (sum_list (map ?cnt (take k (poems self)))) + i)
                     = Inr (py_slice codes (Some i) (Some (i + ?L)),
                            py_slice codes (Some (i + 1)) (Some (i + ?L + 1)))
                 \<and> py_slice codes (Some (i + 1)) (Some (i + ?L + 1))
                     = drop 1 (py_slice codes (Some i) (Some (i + ?L)) @ [codes ! nat (i + ?L)]))"
      using e samples by (intro exI [of _ ?codes]) simp_all
  qed
  show ?thesis using c1 c2 c3 by blast
qed

theorem windowed_samples_witness:
  "preprocess scenario = Inr scenario_ds \<and> data scenario = [] \<and> 0 \<le> sequence_length scenario
   \<and> len scenario_ds = 2
   \<and> getitem scenario_ds 1 = Inr ([1, 0], [0, 2])
   \<and> [0, 2] = drop 1 ([1, 0] @ [2 :: nat])"
proof -
  note w = windowed_samples [OF scenario_preprocess scenario_data]
  have L0: "0 \<le> sequence_length scenario" by (simp add: scenario_def)
  have k: "0 < length (poems scenario)" by (simp add: scenario_def)
  have n: "len scenario_ds = 2" using w by (simp add: scenario_def)
  from w [THEN conjunct2, THEN conjunct2, rule_format, OF L0 k]
  obtain codes where c: "encode (char2idx scenario_ds) (poems scenario ! 0) = Inr codes"
    and s: "\<And>i. 0 \<le> i \<and> i < int (length codes) - sequence_length scenario \<Longrightarrow>
       getitem scenario_ds (int (sum_list (map (\<lambda>p. nat (max 0 (int (length p) - sequence_length scenario)))
                                               (take 0 (poems scenario)))) + i)
         = Inr (py_slice codes (Some i) (Some (i + sequence_length scenario)),
                py_slice codes (Some (i + 1)) (Some (i + sequence_length scenario + 1)))
       \<and> py_slice codes (Some (i + 1)) (Some (i + sequence_length scenario + 1))
           = drop 1 (py_slice codes (Some i) (Some (i + sequence_length scenario))
                     @ [codes ! nat (i + sequence_length scenario)])"
    by blast
  have codes: "codes = [0, 1, 0, 2]"
    using c by (simp add: scenario_def scenario_ds_def)
  have "getitem scenario_ds 1 = Inr ([1, 0], [0, 2])"
    using s [of 1] by (simp add: codes scenario_def py_slice_def slice_bound_def)
  then show ?thesis
    using scenario_preprocess scenario_data L0 n by simp
qed

text \<open>
  C2. The two mappings of the vocabulary are inverse to each other, the characters that
  have a code are exactly the distinct characters of the corpus, the codes are exactly
  those below the number \<open>V\<close> of distinct characters, and encoding a string of characters
  of the corpus and decoding the result gives the string back (as decoding codes below
  \<open>V\<close> and encoding the result gives the codes back).
\<close>

theorem vocabulary_roundtrip:
  assumes "preprocess self = Inr ds"
  shows "(\<forall>c i. char2idx ds c = Some i \<longleftrightarrow> idx2char ds i = Some c)
       \<and> dom (char2idx ds) = set (concat (poems self))
       \<and> dom (idx2char ds) = {i. i < card (set (concat (poems self)))}
       \<and> (\<forall>s. set s \<subseteq> set (concat (poems self)) \<longrightarrow>
            (\<exists>cs. encode (char2idx ds) s = Inr cs \<and> decode (idx2char ds) cs = Inr s))
       \<and> (\<forall>cs. (\<forall>i \<in> set cs. i < card (set (concat (poems self)))) \<longrightarrow>
            (\<exists>s. decode (idx2char ds) cs = Inr s \<and> encode (char2idx ds) s = Inr cs))"
proof -
  let ?text = "concat (poems self)"
  have inv: "\<forall>c i. char2idx ds c = Some i \<longleftrightarrow> idx2char ds i = Some c"
    using vocab_inverse [OF assms] by blast
  have d1: "dom (char2idx ds) = set ?text"
    by (simp add: preprocess_fields(1) [OF assms] build_char2idx_dom sorted_chars_set)
  have d2: "dom (idx2char ds) = {i. i < card (set ?text)}"
    by (auto simp: preprocess_fields(2) [OF assms] build_idx2char_eq sorted_chars_length
             split: if_splits)
  have r1: "\<exists>cs. encode (char2idx ds) s = Inr cs \<and> decode (idx2char ds) cs = Inr s"
    if "set s \<subseteq> set ?text" for s
    using encode_decode [of "char2idx ds" "idx2char ds" s] inv that d1 by blast
  have r2: "\<exists>s. decode (idx2char ds) cs = Inr s \<and> encode (char2idx ds) s = Inr cs"
    if "\<forall>i \<in> set cs. i < card (set ?text)" for cs
    using decode_encode [of "idx2char ds" "char2idx ds" cs] inv that d2 by blast
  show ?thesis using inv d1 d2 r1 r2 by blast
qed

theorem vocabulary_roundtrip_witness:
  "preprocess scenario = Inr scenario_ds
   \<and> dom (char2idx scenario_ds) = {97, 98, 99}
   \<and> set [99, 97, 98] \<subseteq> set (concat (poems scenario))
   \<and> encode (char2idx scenario_ds) [99, 97, 98] = Inr [2, 0, 1]
   \<and> decode (idx2char scenario_ds) [2, 0, 1] = Inr [99, 97, 98]"
proof -
  note v = vocabulary_roundtrip [OF scenario_preprocess]
  have d: "dom (char2idx scenario_ds) = {97, 98, 99}"
    using v by (auto simp: scenario_def)
  have sub: "set [99, 97, 98] \<subseteq> set (concat (poems scenario))"
    by (simp add: scenario_def)
  from v [THEN conjunct2, THEN conjunct2, THEN conjunct2, THEN conjunct1, rule_format, OF sub]
  obtain cs where e: "encode (char2idx scenario_ds) [99, 97, 98] = Inr cs"
    and r: "decode (idx2char scenario_ds) cs = Inr [99, 97, 98]" by blast
  have cs: "cs = [2, 0, 1]" using e by (simp add: scenario_ds_def)
  show ?thesis using scenario_preprocess d sub e r by (simp add: cs)
qed

text \<open>
  C3. Every character of the corpus has exactly one code, below the number \<open>V\<close> of
  distinct characters; the code of a character is its position in the sorted list of the
  distinct characters, so the codes grow with the characters; and two corpora with the
  same set of characters (the same corpus run again, or one with other frequencies)
  get the same two mappings.
\<close>

theorem vocabulary_assignment:
  assumes pre: "preprocess self = Inr ds"
  shows "(\<forall>c \<in> set (concat (poems self)).
            \<exists>!i. i < card (set (concat (poems self))) \<and> char2idx ds c = Some i)
       \<and> (\<forall>i < card (set (concat (poems self))).
            char2idx ds (sorted_list_of_set (set (concat (poems self))) ! i) = Some i
          \<and> idx2char ds i = Some (sorted_list_of_set (set (concat (poems self))) ! i))
       \<and> (\<forall>c c' i j. char2idx ds c = Some i \<and> char2idx ds c' = Some j \<longrightarrow> (c < c' \<longleftrightarrow> i < j))
       \<and> (\<forall>self' ds'. preprocess self' = Inr ds'
              \<and> set (concat (poems self')) = set (concat (poems self))
            \<longrightarrow> char2idx ds' = char2idx ds \<and> idx2char ds' = idx2char ds)"
proof -
  let ?text = "concat (poems self)"
  let ?chars = "sorted_chars ?text"
  have chars: "sorted_list_of_set (set ?text) = ?chars" by (simp add: sorted_chars_def)
  have V: "card (set ?text) = length ?chars" by (simp add: sorted_chars_length)
  have c2i: "char2idx ds c = Some i \<longleftrightarrow> i < length ?chars \<and> ?chars ! i = c" for c i
    using build_char2idx_iff [OF sorted_chars_distinct, of ?text c i]
    by (simp add: preprocess_fields(1) [OF pre])
  have i2c: "idx2char ds i = (if i < length ?chars then Some (?chars ! i) else None)" for i
    by (simp add: preprocess_fields(2) [OF pre] build_idx2char_eq)
  have p1: "\<exists>!i. i < card (set ?text) \<and> char2idx ds c = Some i" if "c \<in> set ?text" for c
  proof -
    have "c \<in> set ?chars" using that by (simp add: sorted_chars_set)
    then obtain i where "i < length ?chars" "?chars ! i = c" by (auto simp: in_set_conv_nth)
    then have "i < card (set ?text) \<and> char2idx ds c = Some i" unfolding V c2i by simp
    then show ?thesis by (intro ex1I [of _ i]) auto
  qed
  have p2: "char2idx ds (sorted_list_of_set (set ?text) ! i) = Some i
          \<and> idx2char ds i = Some (sorted_list_of_set (set ?text) ! i)"
    if "i < card (set ?text)" for i
    using that unfolding chars V c2i i2c by simp
  have p3: "c < c' \<longleftrightarrow> i < j" if "char2idx ds c = Some i \<and> char2idx ds c' = Some j" for c c' i j
    using that nth_strict_mono [OF sorted_chars_sorted sorted_chars_distinct, of i ?text j]
    by (auto simp: c2i)
  have p4: "char2idx ds' = char2idx ds \<and> idx2char ds' = idx2char ds"
    if "preprocess self' = Inr ds' \<and> set (concat (poems self')) = set ?text" for self' ds'
  proof -
    have "sorted_chars (concat (poems self')) = ?chars" using that by (simp add: sorted_chars_def)
    then show ?thesis
      using that by (simp add: preprocess_fields(1,2) [OF pre] preprocess_fields(1,2) [of self' ds'])
  qed
  show ?thesis using p1 p2 p3 p4 by blast
qed

theorem vocabulary_assignment_witness:
  "preprocess scenario = Inr scenario_ds
   \<and> preprocess scenario_freq = Inr scenario_freq_ds
   \<and> set (concat (poems scenario_freq)) = set (concat (poems scenario))
   \<and> char2idx scenario_freq_ds = char2idx scenario_ds
   \<and> idx2char scenario_freq_ds = idx2char scenario_ds
   \<and> char2idx scenario_ds 98 = Some 1 \<and> char2idx scenario_ds 99 = Some 2"
proof -
  note v = vocabulary_assignment [OF scenario_preprocess]
  have s: "set (concat (poems scenario_freq)) = set (concat (poems scenario))"
    by (auto simp: scenario_def scenario_freq_def)
  have "char2idx scenario_freq_ds = char2idx scenario_ds
      \<and> idx2char scenario_freq_ds = idx2char scenario_ds"
    using v [THEN conjunct2, THEN conjunct2, THEN conjunct2, rule_format,
             of scenario_freq scenario_freq_ds] scenario_freq_preprocess s
    by blast
  moreover have "char2idx scenario_ds 98 = Some 1 \<and> char2idx scenario_ds 99 = Some 2"
    by (simp add: scenario_ds_def)
  ultimately show ?thesis using scenario_preprocess scenario_freq_preprocess s by simp
qed

text \<open>
  C6, as the code has it. An empty corpus is a file whose lines are all empty (the
  empty file splits into the one empty line; \<open>split\<close> never returns an empty list).
  \<open>PoemDataset\<close> raises nothing on it: the two mappings are empty (\<open>V = 0\<close>) and, for a
  sequence length \<open>0 \<le> L\<close>, the dataset has no sample.
\<close>

theorem empty_corpus_accepted:
  assumes "read_file file_path = Inr content" and "concat (split_sep newline content) = []"
  shows "\<exists>ds. PoemDataset_init read_file file_path L = Inr ds
            \<and> char2idx ds = Map.empty \<and> idx2char ds = Map.empty
            \<and> poems ds = split_sep newline content \<and> poems ds \<noteq> []
            \<and> (0 \<le> L \<longrightarrow> len ds = 0)"
proof -
  let ?self = "\<lparr>sequence_length = L, poems = split_sep newline content,
                 char2idx = Map.empty, idx2char = Map.empty, data = []\<rparr>"
  obtain ds where ds: "preprocess ?self = Inr ds" using preprocess_total by blast
  have ch: "sorted_chars (concat (poems ?self)) = []"
    using assms(2) by (simp add: sorted_chars_def)
  have c: "char2idx ds = Map.empty"
    using preprocess_fields(1) [OF ds] by (simp only: ch build_char2idx_Nil)
  have i: "idx2char ds = Map.empty"
    using preprocess_fields(2) [OF ds] by (simp only: ch build_idx2char_Nil)
  have d: "len ds = 0" if "0 \<le> L"
    using preprocess_fields(5) [OF ds] index_poems_empty [OF that assms(2)]
    by (simp add: len_def)
  have p: "poems ds = split_sep newline content \<and> poems ds \<noteq> []"
    using preprocess_fields(3) [OF ds] split_sep_not_Nil [of newline content] by simp
  show ?thesis
    using ds c i d p assms(1) by (simp add: PoemDataset_init_def split_sep_not_Nil)
qed

theorem empty_corpus_accepted_witness:
  "empty_poems_txt poems_txt = Inr [] \<and> concat (split_sep newline []) = []
   \<and> (0::int) \<le> 50
   \<and> (\<exists>ds. PoemDataset_init empty_poems_txt poems_txt 50 = Inr ds
          \<and> char2idx ds = Map.empty \<and> idx2char ds = Map.empty \<and> poems ds = [[]]
          \<and> len ds = 0)"
proof -
  have a: "empty_poems_txt poems_txt = Inr []" by (simp add: empty_poems_txt_def)
  have b: "concat (split_sep newline []) = ([] :: str)" by simp
  show ?thesis
    using empty_corpus_accepted [of empty_poems_txt poems_txt "[]" 50, OF a b] a b by auto
qed

text \<open>
  C6, as stated, fails: on the empty file \<open>poems.txt\<close> the constructor returns a dataset.
\<close>

theorem empty_corpus_counterexample:
  "PoemDataset_init empty_poems_txt poems_txt 50
     = Inr \<lparr>sequence_length = 50, poems = [[]], char2idx = Map.empty, idx2char = Map.empty,
            data = []\<rparr>"
  by (simp add: PoemDataset_init_def empty_poems_txt_def preprocess_def Let_def sorted_chars_code
        build_char2idx_def build_idx2char_def index_line_def py_range_def)

text \<open>
  C9. The training loop with an epoch count of 0 returns the state of the run as it was:
  no call of \<open>optimizer.step()\<close> (the counter \<open>steps\<close>), the model and its weights as
  initialised, nothing printed, and no error.
\<close>

theorem train_zero_epochs:
  "train lib dataset sampler 0 r = Inr r"
  by (simp add: train_def py_range_def)

theorem train_zero_epochs_witness:
  "train constant_torch scenario_ds (\<lambda>epoch. [1, 0]) 0 fresh_run = Inr fresh_run"
  using train_zero_epochs [of constant_torch scenario_ds "\<lambda>epoch. [1, 0]" fresh_run]
  by simp

text \<open>
  C5. \<open>init_hidden(b)\<close> returns two zero tensors of the shape \<open>[1, b, hidden_dim]\<close>,
  whatever the number of recurrent layers: for a model built with \<open>num_layers = 2\<close> the
  shape is \<open>[1, 4, 128]\<close> and not \<open>[2, 4, 128]\<close>, and the forward pass refuses the state.
\<close>

theorem init_hidden_one_layer:
  "init_hidden m b = (zeros [1, b, hidden_dim m], zeros [1, b, hidden_dim m])
   \<and> num_layers (lstm (LSTMModel_init V 64 128 2 w)) = 2
   \<and> shape (fst (init_hidden (LSTMModel_init V 64 128 2 w) 4)) = [1, 4, 128]
   \<and> shape (snd (init_hidden (LSTMModel_init V 64 128 2 w) 4)) = [1, 4, 128]
   \<and> forward net (LSTMModel_init 3 64 128 2 w) [[0]] (init_hidden (LSTMModel_init 3 64 128 2 w) 1)
       = Inl ShapeError"
  by (simp add: init_hidden_def LSTMModel_init_def zeros_def forward_def)

theorem init_hidden_one_layer_witness:
  "shape (fst (init_hidden (LSTMModel_init 3 64 128 2 ()) 4)) = [1, 4, 128]
   \<and> num_layers (lstm (LSTMModel_init 3 64 128 2 ())) = 2
   \<and> forward constant_net (LSTMModel_init 3 64 128 2 ()) [[0]]
        (init_hidden (LSTMModel_init 3 64 128 2 ()) 1) = Inl ShapeError"
  using init_hidden_one_layer [of "LSTMModel_init 3 64 128 2 ()" 4 3 "()" constant_net]
  by (simp add: LSTMModel_init_def zeros_def)

text \<open>
  C4, as the code has it. The dataset is preprocessed from a corpus with \<open>V\<close> distinct
  characters, the model is the one the notebook builds for it (\<open>V\<close> codes, one recurrent
  layer, any weights), the layers keep the shapes the library promises, and the seed
  consists of characters of the corpus. Then a continuation length of 0 gives the seed
  unchanged; and for a seed that is not empty and any continuation length \<open>N\<close>, the text
  is the seed followed by exactly \<open>max(0, N)\<close> characters, those of the sampler of the
  specification (\<open>greedy_continuation\<close>: forward pass, scores at the last position, code
  with the maximum score, decode and append, then the new code alone as the next input
  with the carried state), started on the codes of the seed with the zero state. On the
  empty seed with a continuation length \<open>N \<ge> 1\<close> the sampler raises: the first forward
  pass is on a sequence of length 0, which the recurrent layer refuses.
\<close>

theorem greedy_sampler:
  assumes pre: "preprocess self = Inr dataset"
    and ok: "net_ok net 1 h (card (set (concat (poems self))))"
    and m: "mdl = LSTMModel_init (card (set (concat (poems self)))) e h 1 w"
    and seed: "set start_text \<subseteq> set (concat (poems self))"
  shows "predicted_text net mdl dataset start_text 0 = Inr start_text
       \<and> (start_text \<noteq> [] \<longrightarrow>
            (\<exists>codes gen.
                encode (char2idx dataset) start_text = Inr codes
              \<and> gen = greedy_continuation net w
                        (\<lambda>p. sorted_list_of_set (set (concat (poems self))) ! p)
                        (nat N) codes (zeros [1, 1, h], zeros [1, 1, h])
              \<and> length gen = nat N
              \<and> predicted_text net mdl dataset start_text N = Inr (start_text @ gen)
              \<and> predict net mdl dataset start_text N out = Inr (out @ [Text_line (start_text @ gen)])))
       \<and> (start_text = [] \<and> 0 < N \<longrightarrow>
              predicted_text net mdl dataset start_text N = Inl RuntimeError
            \<and> predict net mdl dataset start_text N out = Inl RuntimeError)"
proof -
  let ?text = "concat (poems self)"
  let ?V = "card (set ?text)"
  let ?chars = "sorted_list_of_set (set ?text)"
  let ?codes = "map (\<lambda>ch. the (char2idx dataset ch)) start_text"
  have dm: "dom (char2idx dataset) = set ?text"
    by (simp add: preprocess_fields(1) [OF pre] build_char2idx_dom sorted_chars_set)
  have enc: "encode (char2idx dataset) start_text = Inr ?codes"
    using seed dm by (intro encode_total) simp
  have zero: "predicted_text net mdl dataset start_text 0 = Inr start_text"
    by (simp add: predicted_text_def enc py_range_def)
  have i2c: "idx2char dataset p = (if p < ?V then Some (?chars ! p) else None)" for p
    by (simp add: preprocess_fields(2) [OF pre] build_idx2char_eq sorted_chars_def)
  have dec: "\<forall>p < ?V. idx2char dataset p = Some (?chars ! p)"
    by (simp add: i2c)
  have lt: "\<forall>c \<in> set ?codes. c < ?V"
  proof
    fix c assume "c \<in> set ?codes"
    then obtain ch where ch: "ch \<in> set start_text" "c = the (char2idx dataset ch)" by auto
    then have "ch \<in> dom (char2idx dataset)" using seed dm by auto
    then obtain i where i: "char2idx dataset ch = Some i" by auto
    then have "idx2char dataset i = Some ch" using vocab_inverse [OF pre] by simp
    then have "i < ?V" by (simp add: i2c split: if_splits)
    then show "c < ?V" using ch i by simp
  qed
  have run: "\<exists>codes gen.
                encode (char2idx dataset) start_text = Inr codes
              \<and> gen = greedy_continuation net w (\<lambda>p. ?chars ! p) (nat N) codes
                        (zeros [1, 1, h], zeros [1, 1, h])
              \<and> length gen = nat N
              \<and> predicted_text net mdl dataset start_text N = Inr (start_text @ gen)
              \<and> predict net mdl dataset start_text N out = Inr (out @ [Text_line (start_text @ gen)])"
    if ne: "start_text \<noteq> []"
  proof -
    let ?st = "(zeros [1, 1, h], zeros [1, 1, h])"
    let ?gen = "greedy_continuation net w (\<lambda>p. ?chars ! p) (nat N) ?codes ?st"
    have ih: "init_hidden mdl 1 = ?st" by (simp add: init_hidden_def m LSTMModel_init_def)
    have lp: "predict_loop net mdl dataset (nat N) [?codes] ?st start_text = Inr (start_text @ ?gen)"
      by (rule predict_loop_ok [OF ok m dec]) (use ne lt in \<open>simp_all add: zeros_def\<close>)
    have pt: "predicted_text net mdl dataset start_text N = Inr (start_text @ ?gen)"
      by (simp add: predicted_text_def enc ih length_py_range lp del: One_nat_def)
    have pr: "predict net mdl dataset start_text N out = Inr (out @ [Text_line (start_text @ ?gen)])"
      by (simp add: predict_def pt)
    show ?thesis
      by (intro exI [of _ ?codes] exI [of _ ?gen] conjI enc refl greedy_continuation_length pt pr)
  qed
  have empty: "predicted_text net mdl dataset start_text N = Inl RuntimeError
            \<and> predict net mdl dataset start_text N out = Inl RuntimeError"
    if e: "start_text = [] \<and> 0 < N"
  proof -
    let ?st = "(zeros [1, 1, h], zeros [1, 1, h])"
    obtain k where k: "nat N = Suc k" using e by (cases "nat N") auto
    have ih: "init_hidden mdl 1 = ?st" by (simp add: init_hidden_def m LSTMModel_init_def)
    have fw: "forward net mdl [[]] ?st = Inl RuntimeError"
      by (rule forward_empty_sequence) (simp_all add: m LSTMModel_init_def zeros_def)
    have lp: "predict_loop net mdl dataset (Suc k) [[]] ?st [] = Inl RuntimeError"
      using fw by simp
    have pt: "predicted_text net mdl dataset start_text N = Inl RuntimeError"
      using e lp ih by (simp add: predicted_text_def length_py_range k del: predict_loop.simps)
    then show ?thesis by (simp add: predict_def)
  qed
  show ?thesis using zero run empty by (intro conjI impI) simp_all
qed

theorem greedy_sampler_witness:
  "preprocess scenario = Inr scenario_ds
   \<and> net_ok constant_net 1 128 (card (set (concat (poems scenario))))
   \<and> set [97] \<subseteq> set (concat (poems scenario))
   \<and> [97] \<noteq> ([] :: str)
   \<and> predicted_text constant_net (LSTMModel_init 3 64 128 1 ()) scenario_ds [97] 0 = Inr [97]
   \<and> predicted_text constant_net (LSTMModel_init 3 64 128 1 ()) scenario_ds [97] 2 = Inr [97, 98, 98]
   \<and> predict constant_net (LSTMModel_init 3 64 128 1 ()) scenario_ds [97] 2 []
        = Inr [Text_line [97, 98, 98]]"
proof -
  have ok: "net_ok constant_net 1 128 (card (set (concat (poems scenario))))"
    using constant_net_ok by (simp only: scenario_V)
  have m: "LSTMModel_init 3 64 128 1 () = LSTMModel_init (card (set (concat (poems scenario)))) 64 128 1 ()"
    by (simp only: scenario_V)
  have seed: "set [97] \<subseteq> set (concat (poems scenario))" by (simp add: scenario_def)
  have ne: "[97] \<noteq> ([] :: str)" by simp
  note g = greedy_sampler [OF scenario_preprocess ok m seed, of 2 "[]"]
  from g have z: "predicted_text constant_net (LSTMModel_init 3 64 128 1 ()) scenario_ds [97] 0 = Inr [97]"
    by blast
  from g ne obtain codes gen where
      c: "encode (char2idx scenario_ds) [97] = Inr codes"
    and gen: "gen = greedy_continuation constant_net ()
                     (\<lambda>p. sorted_list_of_set (set (concat (poems scenario))) ! p)
                     (nat 2) codes (zeros [1, 1, 128], zeros [1, 1, 128])"
    and pt: "predicted_text constant_net (LSTMModel_init 3 64 128 1 ()) scenario_ds [97] 2 = Inr ([97] @ gen)"
    and pr: "predict constant_net (LSTMModel_init 3 64 128 1 ()) scenario_ds [97] 2 []
               = Inr ([] @ [Text_line ([97] @ gen)])"
    by blast
  have codes: "codes = [0]" using c by (simp add: scenario_ds_def)
  have ch: "sorted_list_of_set (set (concat (poems scenario))) = [97, 98, 99]"
    using scenario_chars by (simp only: sorted_chars_def)
  have n2: "nat 2 = Suc (Suc 0)" by simp
  have "gen = [98, 98]"
    unfolding gen codes ch n2
    by (simp add: constant_net_def select_max_def Let_def)
  then show ?thesis
    using scenario_preprocess ok seed z pt pr by simp
qed

text \<open>
  C4, as stated, fails on the empty seed, a string of characters of the vocabulary: with
  a continuation length of 1 the forward pass is on a sequence of length 0, which the
  recurrent layer refuses, so the sampler raises instead of appending a character.
  \<open>isl\<close> holds of an error.
\<close>

theorem empty_seed_counterexample:
  "preprocess scenario = Inr scenario_ds
   \<and> net_ok constant_net 1 128 3
   \<and> set ([] :: str) \<subseteq> dom (char2idx scenario_ds)
   \<and> predicted_text constant_net (LSTMModel_init 3 64 128 1 ()) scenario_ds [] 1 = Inl RuntimeError
   \<and> isl (predicted_text constant_net (LSTMModel_init 3 64 128 1 ()) scenario_ds [] 1)
   \<and> isl (predict constant_net (LSTMModel_init 3 64 128 1 ()) scenario_ds [] 1 [])"
proof -
  have "predicted_text constant_net (LSTMModel_init 3 64 128 1 ()) scenario_ds [] 1 = Inl RuntimeError"
    by (simp add: predicted_text_def init_hidden_def py_range_def forward_def LSTMModel_init_def
        zeros_def)
  then show ?thesis
    using scenario_preprocess constant_net_ok by (simp add: predict_def)
qed

text \<open>
  C7. With layers that keep the promised shapes for \<open>V\<close> codes and a vocabulary that
  decodes every code below \<open>V\<close>, the sampler fails with a lookup error (KeyError) if and
  only if the seed has a character that is not in the vocabulary; and \<open>preprocess\<close>
  never raises, on any corpus: every line is encoded with the vocabulary built from it.
\<close>

theorem lookup_error_iff:
  assumes ok: "net_ok net nl hs V" and dec: "\<forall>p < V. idx2char dataset p \<noteq> None"
  shows "((\<exists>k. predicted_text net mdl dataset start_text N = Inl (KeyError k))
            \<longleftrightarrow> \<not> set start_text \<subseteq> dom (char2idx dataset))
       \<and> ((\<exists>k. predict net mdl dataset start_text N out = Inl (KeyError k))
            \<longleftrightarrow> \<not> set start_text \<subseteq> dom (char2idx dataset))
       \<and> (\<exists>ds. preprocess self = Inr ds
              \<and> (\<forall>p \<in> set (poems self). \<exists>codes. encode (char2idx ds) p = Inr codes))"
proof -
  have a: "(\<exists>k. predicted_text net mdl dataset start_text N = Inl (KeyError k))
            \<longleftrightarrow> \<not> set start_text \<subseteq> dom (char2idx dataset)"
  proof (cases "set start_text \<subseteq> dom (char2idx dataset)")
    case True
    then show ?thesis
      using predict_loop_no_KeyError [OF ok dec]
      by (simp add: predicted_text_def encode_total)
  next
    case False
    then show ?thesis
      using encode_fail [OF False] by (auto simp: predicted_text_def)
  qed
  have b: "(\<exists>k. predict net mdl dataset start_text N out = Inl (KeyError k))
         \<longleftrightarrow> (\<exists>k. predicted_text net mdl dataset start_text N = Inl (KeyError k))"
    by (auto simp: predict_def split: sum.splits)
  obtain ds where ds: "preprocess self = Inr ds" using preprocess_total by blast
  have c: "\<forall>p \<in> set (poems self). \<exists>codes. encode (char2idx ds) p = Inr codes"
    using preprocess_encode [OF ds] by blast
  show ?thesis using a b ds c by blast
qed

theorem lookup_error_iff_witness:
  "net_ok constant_net 1 128 3
   \<and> idx2char scenario_ds 0 = Some 97 \<and> idx2char scenario_ds 1 = Some 98
   \<and> idx2char scenario_ds 2 = Some 99
   \<and> \<not> set [97, 100] \<subseteq> dom (char2idx scenario_ds)
   \<and> predicted_text constant_net (LSTMModel_init 3 64 128 1 ()) scenario_ds [97, 100] 2
       = Inl (KeyError (CharKey 100))
   \<and> set [97, 98] \<subseteq> dom (char2idx scenario_ds)
   \<and> predicted_text constant_net (LSTMModel_init 3 64 128 1 ()) scenario_ds [97, 98] 2
       = Inr [97, 98, 98, 98]"
proof -
  have dec: "\<forall>p < 3. idx2char scenario_ds p \<noteq> None"
    by (auto simp: scenario_ds_def less_Suc_eq numeral_3_eq_3)
  note t = lookup_error_iff [OF constant_net_ok dec, of "LSTMModel_init 3 64 128 1 ()" "[97, 100]" 2]
  have n: "\<not> set [97, 100] \<subseteq> dom (char2idx scenario_ds)"
    by (simp add: scenario_ds_def)
  from t n obtain k where
    k: "predicted_text constant_net (LSTMModel_init 3 64 128 1 ()) scenario_ds [97, 100] 2 = Inl (KeyError k)"
    by blast
  then have "k = CharKey 100"
    by (simp add: predicted_text_def scenario_ds_def)
  moreover have "set [97, 98] \<subseteq> dom (char2idx scenario_ds)"
    by (simp add: scenario_ds_def)
  moreover have "predicted_text constant_net (LSTMModel_init 3 64 128 1 ()) scenario_ds [97, 98] 2
       = Inr [97, 98, 98, 98]"
    by (simp add: predicted_text_def init_hidden_def py_range_def forward_def LSTMModel_init_def
        zeros_def constant_net_def argmax_dim2_def last_column_def py_index_def scenario_ds_def
        argmax_def item_def upto_rec1)
  moreover have "idx2char scenario_ds 0 = Some 97 \<and> idx2char scenario_ds 1 = Some 98
      \<and> idx2char scenario_ds 2 = Some 99"
    by (simp add: scenario_ds_def)
  ultimately show ?thesis using constant_net_ok n k by simp
qed

text \<open>
  C10. The dataset is preprocessed from a corpus with \<open>V\<close> distinct characters and a
  sequence length \<open>L > 0\<close> (50 in the notebook), the model is the one the notebook builds
  for it (\<open>V\<close> codes, one recurrent layer), the layers keep the shapes the library
  promises, and the sampler draws an order of all the indices. If the length of the
  dataset is not a multiple of 32, the loader yields \<open>length div 32\<close> batches of 32 and a
  last batch of \<open>length mod 32\<close> samples; the batches of 32 are trained (one optimizer
  step each), and the forward pass on the last batch raises the shape error of the
  recurrent layer, the state carried into it having been initialised for 32: the epoch,
  and with it the training loop, ends with this error. So an epoch completes only when
  32 divides the length of the dataset.
\<close>

theorem final_batch_shape_error:
  assumes pre: "preprocess self = Inr dataset" and d0: "data self = []"
    and L0: "0 < sequence_length self"
    and ok: "net_ok (layers lib) 1 h (card (set (concat (poems self))))"
    and m: "model r = LSTMModel_init (card (set (concat (poems self)))) e h 1 w"
    and perm: "distinct order \<and> set order = {0..<len dataset}"
    and nd: "\<not> 32 dvd len dataset"
  shows "train_epoch lib dataset order epoch r = Inl ShapeError
       \<and> length (data_loader order) = len dataset div 32 + 1
       \<and> length (last (data_loader order)) = len dataset mod 32
       \<and> (\<exists>r' st'. train_batches lib dataset (butlast (data_loader order))
                        (r, init_hidden (model r) 32) = Inr (r', st')
              \<and> steps r' = steps r + len dataset div 32
              \<and> train_batch lib dataset (last (data_loader order)) (r', st') = Inl ShapeError)
       \<and> (\<forall>sampler epochs. 0 < epochs \<and> sampler 0 = order \<and> epoch = 0
              \<longrightarrow> train lib dataset sampler epochs r = Inl ShapeError)"
proof -
  let ?V = "card (set (concat (poems self)))"
  let ?n = "len dataset"
  have L0': "0 \<le> sequence_length self" using L0 by simp
  have so: "set order = {0..<?n}" using perm by simp
  have "card (set order) = length order" using perm by (intro distinct_card) simp
  then have lo: "length order = ?n" unfolding so by simp
  from chunks_not_dvd [of 32 order] nd lo obtain full lst where
    ch: "chunks 32 order = full @ [lst]" and lf: "length full = ?n div 32"
    and fb: "\<forall>b \<in> set full. length b = 32 \<and> set b \<subseteq> set order"
    and ll: "length lst = ?n mod 32" and sl: "set lst \<subseteq> set order"
    and r0: "0 < ?n mod 32" and r1: "?n mod 32 < 32"
    by auto
  have dl: "data_loader order = full @ [lst]" by (simp add: data_loader_def ch)
  have fb': "\<forall>b \<in> set full. length b = 32 \<and> (\<forall>i \<in> set b. i < ?n)"
  proof (intro ballI conjI)
    fix b assume b: "b \<in> set full"
    then show "length b = 32" using fb by blast
    fix i assume "i \<in> set b"
    then have "i \<in> {0..<?n}" using fb b so by blast
    then show "i < ?n" by simp
  qed
  have li: "\<forall>i \<in> set lst. i < ?n"
  proof
    fix i assume "i \<in> set lst"
    then have "i \<in> {0..<?n}" using sl so by blast
    then show "i < ?n" by simp
  qed
  have ih: "shape (fst (init_hidden (model r) 32)) = [1, 32, h]"
      "shape (snd (init_hidden (model r) 32)) = [1, 32, h]"
    by (simp_all add: init_hidden_def zeros_def m LSTMModel_init_def)
  from train_batches_full [OF ok pre d0 L0 fb' m ih] obtain r' st' w' where
    t: "train_batches lib dataset full (r, init_hidden (model r) 32) = Inr (r', st')"
    and m': "model r' = LSTMModel_init ?V e h 1 w'"
    and c': "steps r' = steps r + length full"
    and h': "shape (fst st') = [1, 32, h]" "shape (snd st') = [1, 32, h]"
    by blast
  from fetch_batch [OF pre d0 L0' li] obtain seq tgt where
    f: "fetch dataset lst = Inr (seq, tgt)" and ls: "length seq = length lst"
    and lt: "length tgt = length lst"
    and sq: "\<forall>s \<in> set seq. length s = nat (sequence_length self) \<and> (\<forall>c \<in> set s. c < ?V)"
    and tg: "\<forall>s \<in> set tgt. length s = nat (sequence_length self) \<and> (\<forall>c \<in> set s. c < ?V)"
    by blast
  have len: "length tgt = length seq" using ls lt by simp
  have n: "length seq \<noteq> 32" using ls ll r1 by simp
  have last_fails: "train_batch lib dataset lst (r', st') = Inl ShapeError"
    by (rule train_batch_run(2) [OF ok f len sq tg m' h' n])
  have all: "train_batches lib dataset (data_loader order) (r, init_hidden (model r) 32)
               = Inl ShapeError"
    by (simp add: dl train_batches_append t last_fails)
  have ep: "train_epoch lib dataset order epoch r = Inl ShapeError"
    by (simp add: train_epoch_def Let_def all)
  have c1: "length (data_loader order) = ?n div 32 + 1" by (simp add: dl lf)
  have c2: "length (last (data_loader order)) = ?n mod 32" by (simp add: dl ll)
  have c3: "\<exists>r' st'. train_batches lib dataset (butlast (data_loader order))
                        (r, init_hidden (model r) 32) = Inr (r', st')
              \<and> steps r' = steps r + ?n div 32
              \<and> train_batch lib dataset (last (data_loader order)) (r', st') = Inl ShapeError"
    using t c' lf last_fails by (simp add: dl)
  have c4: "train lib dataset sampler epochs r = Inl ShapeError"
    if "0 < epochs \<and> sampler 0 = order \<and> epoch = 0" for sampler epochs
    using that ep train_first_epoch [of epochs lib dataset sampler r ShapeError] by simp
  show ?thesis using ep c1 c2 c3 c4 by (intro conjI allI impI) simp_all
qed

theorem final_batch_shape_error_witness:
  "preprocess scenario = Inr scenario_ds \<and> data scenario = [] \<and> 0 < sequence_length scenario
   \<and> net_ok (layers constant_torch) 1 128 (card (set (concat (poems scenario))))
   \<and> distinct [1, 0 :: nat] \<and> set [1, 0] = {0..<len scenario_ds}
   \<and> \<not> 32 dvd len scenario_ds
   \<and> train_epoch constant_torch scenario_ds [1, 0] 0 fresh_run = Inl ShapeError
   \<and> train constant_torch scenario_ds (\<lambda>epoch. [1, 0]) 10 fresh_run = Inl ShapeError"
proof -
  have L0: "0 < sequence_length scenario" by (simp add: scenario_def)
  have m: "model fresh_run = LSTMModel_init (card (set (concat (poems scenario)))) 64 128 1 ()"
    unfolding scenario_V by (simp add: fresh_run_def)
  have n: "len scenario_ds = 2" by (simp add: len_def scenario_ds_def)
  have perm: "distinct [1, 0 :: nat] \<and> set [1, 0] = {0..<len scenario_ds}"
    by (auto simp: n)
  have nd: "\<not> 32 dvd len scenario_ds" by (simp add: n)
  note t = final_batch_shape_error [OF scenario_preprocess scenario_data L0 constant_torch_ok m perm nd,
             of 0]
  have e: "train_epoch constant_torch scenario_ds [1, 0] 0 fresh_run = Inl ShapeError"
    using t by blast
  have "train constant_torch scenario_ds (\<lambda>epoch. [1, 0]) 10 fresh_run = Inl ShapeError"
    using t [THEN conjunct2, THEN conjunct2, THEN conjunct2, THEN conjunct2, rule_format,
             of 10 "\<lambda>epoch. [1, 0]"]
    by simp
  then show ?thesis
    using scenario_preprocess scenario_data L0 constant_torch_ok perm nd e by simp
qed

end
